theory Spec2Isabelle
  imports Main
begin

section \<open>Event descriptors\<close>

text \<open>
  The event kinds of \<^verbatim>\<open>event.h\<close>. The header is not part of the source file; the six
  names are the ones \<^verbatim>\<open>event.cpp\<close> switches on.
\<close>

datatype event_type =
  EVENT_ANY | EVENT_SIGNAL | EVENT_VARIABLE | EVENT_EXIT | EVENT_JOB_ID | EVENT_GENERIC

text \<open>
  \<^verbatim>\<open>event_t\<close>. The C++ field \<^verbatim>\<open>param1\<close> is a union of \<^verbatim>\<open>signal\<close>, \<^verbatim>\<open>pid\<close> and
  \<^verbatim>\<open>job_id\<close>, all of integer type and stored in the same place, so it is one integer
  here. \<^verbatim>\<open>arguments\<close> is a pointer to a string list that may be null.
\<close>

record event_t =
  type :: event_type
  param1 :: int
  str_param1 :: string
  function_name :: string
  arguments :: "string list option"

section \<open>Process-wide state\<close>

text \<open>
  \<^verbatim>\<open>signal_list_t\<close>: a count, an overflow flag, and an array of
  \<^verbatim>\<open>SIG_UNHANDLED_MAX\<close> signal numbers, indexed from 0. The count only ever is set to 0 or
  incremented, so it is a natural number.
\<close>

record signal_list_t =
  count :: nat
  overflow :: int
  signal :: "nat \<Rightarrow> int"

definition SIG_UNHANDLED_MAX :: nat where
  "SIG_UNHANDLED_MAX = 64"

text \<open>
  A scope of the interpreter's block stack, as far as this file uses it: which event
  types the scope blocks, and the occurrence an \<^verbatim>\<open>EVENT\<close> scope is tagged with.

  Modelled from the spec: \<^verbatim>\<open>event_block_list_blocks_type\<close> is not in the source file; each
  scope exposes "does this scope block event type T?", which is the field
  \<open>event_blocks\<close>.
\<close>

record block_t =
  event_blocks :: "event_type \<Rightarrow> bool"
  state1 :: "event_t option"

text \<open>The calls this file makes to its collaborators, in the order they are made.\<close>

datatype effect =
    SignalHandle int bool
  | SignalBlock
  | SignalUnblock
  | Debug string
  | Eval string
  | CheckFailed

text \<open>
  Everything the file reads and writes. \<open>heap\<close> holds the \<^verbatim>\<open>event_t\<close> objects made by
  \<^verbatim>\<open>new\<close>: an address is an index into it, a deleted object is \<open>None\<close>, and an address
  is never handed out twice. \<open>events\<close>, \<open>killme\<close> and \<open>blocked\<close> are the three vectors
  of pointers. \<open>is_event\<close>, \<open>last_status\<close>, the interactive flag with its stack, and the
  block stack (innermost scope first) belong to the interpreter.
\<close>

record world =
  heap :: "event_t option list"
  events :: "nat list"
  killme :: "nat list"
  blocked :: "nat list"
  sig_list :: "nat \<Rightarrow> signal_list_t"
  active_list :: nat
  is_event :: int
  last_status :: int
  is_interactive :: int
  interactive_stack :: "int list"
  current_block :: "block_t list"
  global_event_blocks :: "event_type \<Rightarrow> bool"
  log :: "effect list"

datatype error = OutOfFuel | UseAfterFree | InvalidFree | InteractiveStackEmpty

type_synonym 'a res = "error + 'a"

definition bnd :: "'a res \<Rightarrow> ('a \<Rightarrow> 'b res) \<Rightarrow> 'b res" where
  "bnd m f = (case m of Inl e \<Rightarrow> Inl e | Inr a \<Rightarrow> f a)"

text \<open>
  What the file takes from outside and the source file does not define: the two wildcard
  constants of \<^verbatim>\<open>event.h\<close>, the signal-name and escaping functions, and the evaluator
  \<^verbatim>\<open>parser.eval\<close>, which runs a command line and may call back into every function
  below.
\<close>

record ext =
  EVENT_ANY_SIGNAL :: int
  EVENT_ANY_PID :: int
  sig2wcs :: "int \<Rightarrow> string"
  escape_string :: "string \<Rightarrow> string"
  parser_eval :: "string \<Rightarrow> world \<Rightarrow> world res"

section \<open>Collaborators\<close>

definition deref :: "world \<Rightarrow> nat \<Rightarrow> event_t option" where
  "deref w p = (if p < length (heap w) then heap w ! p else None)"

definition new_event :: "event_t \<Rightarrow> world \<Rightarrow> nat \<times> world" where
  "new_event e w = (length (heap w), w\<lparr>heap := heap w @ [Some e]\<rparr>)"

definition emit :: "effect \<Rightarrow> world \<Rightarrow> world" where
  "emit a w = w\<lparr>log := log w @ [a]\<rparr>"

definition signal_handle :: "int \<Rightarrow> bool \<Rightarrow> world \<Rightarrow> world" where
  "signal_handle sig do_handle w = emit (SignalHandle sig do_handle) w"

definition signal_block :: "world \<Rightarrow> world" where
  "signal_block w = emit SignalBlock w"

definition signal_unblock :: "world \<Rightarrow> world" where
  "signal_unblock w = emit SignalUnblock w"

definition debug :: "string \<Rightarrow> world \<Rightarrow> world" where
  "debug msg w = emit (Debug msg) w"

text \<open>
  Modelled from the spec: the macro \<^verbatim>\<open>CHECK\<close> is not in the source file. A null argument
  "fails fast via a precondition check": the violation is reported and the function
  returns at once.
\<close>

definition CHECK_failed :: "world \<Rightarrow> world" where
  "CHECK_failed w = emit CheckFailed w"

text \<open>
  Modelled from the spec: \<^verbatim>\<open>proc_push_interactive\<close> and \<^verbatim>\<open>proc_pop_interactive\<close> are not
  in the source file. "Mark execution as non-interactive" saves the flag and sets it;
  "restore interactive-mode flag" takes the saved value back.
\<close>

definition proc_push_interactive :: "int \<Rightarrow> world \<Rightarrow> world" where
  "proc_push_interactive v w =
     w\<lparr>interactive_stack := is_interactive w # interactive_stack w, is_interactive := v\<rparr>"

definition proc_pop_interactive :: "world \<Rightarrow> world res" where
  "proc_pop_interactive w =
     (case interactive_stack w of
        [] \<Rightarrow> Inl InteractiveStackEmpty
      | v # st \<Rightarrow> Inr (w\<lparr>is_interactive := v, interactive_stack := st\<rparr>))"

text \<open>
  Modelled from the spec: \<^verbatim>\<open>push_block\<close> and \<^verbatim>\<open>pop_block\<close> of the parser are not in the
  source file. "Push a new execution scope tagged with the triggering occurrence", "pop
  the scope". The new scope blocks nothing.
\<close>

definition push_block_EVENT :: "event_t \<Rightarrow> world \<Rightarrow> world" where
  "push_block_EVENT event w =
     w\<lparr>current_block := \<lparr>event_blocks = (\<lambda>t. False), state1 = Some event\<rparr> # current_block w\<rparr>"

definition pop_block :: "world \<Rightarrow> world" where
  "pop_block w = w\<lparr>current_block := tl (current_block w)\<rparr>"

text \<open>
  Modelled from the spec: the constructor \<^verbatim>\<open>event_t(int)\<close> is in \<^verbatim>\<open>event.h\<close>. It sets the
  type and leaves every other field empty.
\<close>

definition event_t_init :: "event_type \<Rightarrow> event_t" where
  "event_t_init t =
     \<lparr>type = t, param1 = 0, str_param1 = [], function_name = [], arguments = None\<rparr>"

definition signal_event :: "int \<Rightarrow> event_t" where
  "signal_event sig = (event_t_init EVENT_SIGNAL)\<lparr>param1 := sig\<rparr>"

section \<open>Matching\<close>

definition event_match :: "ext \<Rightarrow> event_t \<Rightarrow> event_t \<Rightarrow> bool" where
  "event_match x classv instance =
     (if function_name classv \<noteq> [] \<and> function_name instance \<noteq> [] \<and>
         function_name classv \<noteq> function_name instance
      then False
      else if type classv = EVENT_ANY then True
      else if type classv \<noteq> type instance then False
      else (case type classv of
          EVENT_SIGNAL \<Rightarrow>
            (if param1 classv = EVENT_ANY_SIGNAL x then True
             else param1 classv = param1 instance)
        | EVENT_VARIABLE \<Rightarrow> str_param1 instance = str_param1 classv
        | EVENT_EXIT \<Rightarrow>
            (if param1 classv = EVENT_ANY_PID x then True
             else param1 classv = param1 instance)
        | EVENT_JOB_ID \<Rightarrow> param1 classv = param1 instance
        | EVENT_GENERIC \<Rightarrow> str_param1 instance = str_param1 classv
        | EVENT_ANY \<Rightarrow> False))"

text \<open>
  The decision order of \<open>matches\<close> as the specification words it, on the same
  descriptors.
\<close>

definition name_veto :: "event_t \<Rightarrow> event_t \<Rightarrow> bool" where
  "name_veto pattern occurrence =
     (function_name pattern \<noteq> [] \<and> function_name occurrence \<noteq> [] \<and>
      function_name pattern \<noteq> function_name occurrence)"

fun per_type_rule :: "ext \<Rightarrow> event_type \<Rightarrow> event_t \<Rightarrow> event_t \<Rightarrow> bool" where
  "per_type_rule x EVENT_SIGNAL p oc =
     (param1 p = EVENT_ANY_SIGNAL x \<or> param1 p = param1 oc)"
| "per_type_rule x EVENT_VARIABLE p oc = (str_param1 p = str_param1 oc)"
| "per_type_rule x EVENT_GENERIC p oc = (str_param1 p = str_param1 oc)"
| "per_type_rule x EVENT_EXIT p oc =
     (param1 p = EVENT_ANY_PID x \<or> param1 p = param1 oc)"
| "per_type_rule x EVENT_JOB_ID p oc = (param1 p = param1 oc)"
| "per_type_rule x EVENT_ANY p oc = True"

definition matches :: "ext \<Rightarrow> event_t \<Rightarrow> event_t \<Rightarrow> bool" where
  "matches x pattern occurrence =
     (if name_veto pattern occurrence then False
      else if type pattern = EVENT_ANY then True
      else if type pattern \<noteq> type occurrence then False
      else per_type_rule x (type pattern) pattern occurrence)"

section \<open>Copying and blocking\<close>

text \<open>
  \<^verbatim>\<open>event_copy\<close>: the copy constructor duplicates every field, then the argument list of
  the copy is replaced by a new empty one, which receives the original's strings when
  \<open>copy_arguments\<close> is set and the original has a list.
\<close>

definition event_copy :: "event_t \<Rightarrow> bool \<Rightarrow> world \<Rightarrow> nat \<times> world" where
  "event_copy event copy_arguments w =
     (let e = event\<lparr>arguments := Some []\<rparr>;
          e' = (case arguments event of
                  Some a \<Rightarrow> if copy_arguments then e\<lparr>arguments := Some a\<rparr> else e
                | None \<Rightarrow> e)
      in new_event e' w)"

definition event_is_blocked :: "event_t \<Rightarrow> world \<Rightarrow> bool" where
  "event_is_blocked e w =
     (if list_ex (\<lambda>b. event_blocks b (type e)) (current_block w) then True
      else global_event_blocks w (type e))"

text \<open>\<^verbatim>\<open>event_free\<close>: \<^verbatim>\<open>delete\<close> of an object that is not live is an error.\<close>

definition event_free :: "nat \<Rightarrow> world \<Rightarrow> world res" where
  "event_free p w =
     (case deref w p of
        None \<Rightarrow> Inl InvalidFree
      | Some e \<Rightarrow> Inr (w\<lparr>heap := (heap w)[p := None]\<rparr>))"

section \<open>The handler registry\<close>

definition event_add_handler :: "event_t option \<Rightarrow> world \<Rightarrow> world" where
  "event_add_handler event w =
     (case event of
        None \<Rightarrow> CHECK_failed w
      | Some ev \<Rightarrow>
          (let (e, w1) = event_copy ev False w;
               w2 = (if type ev = EVENT_SIGNAL then signal_handle (param1 ev) True w1 else w1);
               w3 = signal_block w2;
               w4 = w3\<lparr>events := events w3 @ [e]\<rparr>
           in signal_unblock w4))"

text \<open>
  The loop of \<^verbatim>\<open>event_get\<close> over the registry, which the loop does not change. \<open>out\<close>
  is the optional vector that collects the matches.
\<close>

fun event_get_loop ::
  "ext \<Rightarrow> event_t \<Rightarrow> nat list \<Rightarrow> int \<Rightarrow> nat list option \<Rightarrow> world \<Rightarrow> (int \<times> nat list option) res"
where
  "event_get_loop x criterion [] found out w = Inr (found, out)"
| "event_get_loop x criterion (n # ns) found out w =
     (case deref w n of
        None \<Rightarrow> Inl UseAfterFree
      | Some nv \<Rightarrow>
          if event_match x criterion nv
          then event_get_loop x criterion ns (found + 1) (map_option (\<lambda>v. v @ [n]) out) w
          else event_get_loop x criterion ns found out w)"

definition event_get ::
  "ext \<Rightarrow> event_t option \<Rightarrow> nat list option \<Rightarrow> world \<Rightarrow> ((int \<times> nat list option) \<times> world) res"
where
  "event_get x criterion out w =
     (if events w = [] then Inr ((0, out), w)
      else case criterion of
             None \<Rightarrow> Inr ((0, out), CHECK_failed w)
           | Some c \<Rightarrow> bnd (event_get_loop x c (events w) 0 out w) (\<lambda>r. Inr (r, w)))"

text \<open>
  The loop of \<^verbatim>\<open>event_remove\<close>. The registry itself is only replaced after the loop, so
  \<^verbatim>\<open>event_get\<close> inside the loop still counts in the list as it was before the call.
\<close>

fun event_remove_loop ::
  "ext \<Rightarrow> event_t \<Rightarrow> nat list \<Rightarrow> nat list \<Rightarrow> world \<Rightarrow> (nat list \<times> world) res"
where
  "event_remove_loop x criterion [] new_list w = Inr (new_list, w)"
| "event_remove_loop x criterion (n # ns) new_list w =
     (case deref w n of
        None \<Rightarrow> Inl UseAfterFree
      | Some nv \<Rightarrow>
          if event_match x criterion nv
          then
            (let w1 = w\<lparr>killme := killme w @ [n]\<rparr> in
             if type nv = EVENT_SIGNAL
             then
               (let e = signal_event (param1 nv) in
                bnd (event_get x (Some e) None w1)
                  (\<lambda>(r, w2).
                     event_remove_loop x criterion ns new_list
                       (if fst r = 1 then signal_handle (param1 e) False w2 else w2)))
             else event_remove_loop x criterion ns new_list w1)
          else event_remove_loop x criterion ns (new_list @ [n]) w)"

definition event_remove :: "ext \<Rightarrow> event_t option \<Rightarrow> world \<Rightarrow> world res" where
  "event_remove x criterion w =
     (case criterion of
        None \<Rightarrow> Inr (CHECK_failed w)
      | Some c \<Rightarrow>
          if events w = [] then Inr w
          else bnd (event_remove_loop x c (events w) [] w)
                 (\<lambda>(new_list, w1).
                    Inr (signal_unblock ((signal_block w1)\<lparr>events := new_list\<rparr>))))"

text \<open>\<^verbatim>\<open>for_each(killme.begin(), killme.end(), event_free)\<close>, then the list is emptied.\<close>

fun free_all :: "nat list \<Rightarrow> world \<Rightarrow> world res" where
  "free_all [] w = Inr w"
| "free_all (p # ps) w = bnd (event_free p w) (free_all ps)"

definition event_free_kills :: "world \<Rightarrow> world res" where
  "event_free_kills w = bnd (free_all (killme w) w) (\<lambda>w1. Inr (w1\<lparr>killme := []\<rparr>))"

definition event_is_killed :: "nat \<Rightarrow> world \<Rightarrow> bool" where
  "event_is_killed e w = (e \<in> set (killme w))"

section \<open>Dispatch\<close>

text \<open>The first loop of \<^verbatim>\<open>event_fire_internal\<close>: the entries that match, by reference.\<close>

fun fire_list :: "ext \<Rightarrow> event_t \<Rightarrow> nat list \<Rightarrow> nat list \<Rightarrow> world \<Rightarrow> nat list res" where
  "fire_list x event [] fire w = Inr fire"
| "fire_list x event (p # ps) fire w =
     (case deref w p of
        None \<Rightarrow> Inl UseAfterFree
      | Some criterion \<Rightarrow>
          fire_list x event ps (if event_match x criterion event then fire @ [p] else fire) w)"

text \<open>
  The command line of a handler: its function name, then every argument of the
  occurrence, escaped, each after a blank.
\<close>

definition command_line :: "ext \<Rightarrow> event_t \<Rightarrow> event_t \<Rightarrow> string" where
  "command_line x criterion event =
     function_name criterion @
     (case arguments event of
        None \<Rightarrow> []
      | Some args \<Rightarrow> concat (map (\<lambda>a. '' '' @ escape_string x a) args))"

text \<open>
  One handler invocation: the body of the second loop of \<^verbatim>\<open>event_fire_internal\<close> after
  the kill-list test.
\<close>

definition fire_handler :: "ext \<Rightarrow> event_t \<Rightarrow> nat \<Rightarrow> world \<Rightarrow> world res" where
  "fire_handler x event p w =
     (case deref w p of
        None \<Rightarrow> Inl UseAfterFree
      | Some criterion \<Rightarrow>
          (let buffer = command_line x criterion event;
               w1 = proc_push_interactive 0 w;
               prev_status = last_status w1;
               w2 = push_block_EVENT event w1
           in bnd (parser_eval x buffer (emit (Eval buffer) w2))
                (\<lambda>w3. bnd (proc_pop_interactive (pop_block w3))
                   (\<lambda>w4. Inr (w4\<lparr>last_status := prev_status\<rparr>)))))"

text \<open>
  The second loop of \<^verbatim>\<open>event_fire_internal\<close>. The fire list is a local vector, so no
  handler can change it; the kill-list is global and is looked up at every turn.
\<close>

fun fire_loop :: "ext \<Rightarrow> event_t \<Rightarrow> nat list \<Rightarrow> world \<Rightarrow> world res" where
  "fire_loop x event [] w = Inr w"
| "fire_loop x event (p # ps) w =
     (if event_is_killed p w then fire_loop x event ps w
      else bnd (fire_handler x event p w) (fire_loop x event ps))"

definition event_fire_internal :: "ext \<Rightarrow> event_t \<Rightarrow> world \<Rightarrow> world res" where
  "event_fire_internal x event w =
     bnd (event_free_kills w)
       (\<lambda>w1. if events w1 = [] then Inr w1
             else bnd (fire_list x event (events w1) [] w1)
                    (\<lambda>fire. if fire = [] then Inr w1
                            else bnd (fire_loop x event fire w1) event_free_kills))"

text \<open>
  The loop of \<^verbatim>\<open>event_fire_delayed\<close> over the blocked queue. The queue can grow while
  the loop runs (a handler may fire an occurrence that is blocked), and the loop reads
  its size again on every round, so the index is explicit and every round takes fuel.
\<close>

fun blocked_loop ::
  "ext \<Rightarrow> nat \<Rightarrow> nat \<Rightarrow> nat list \<Rightarrow> world \<Rightarrow> (nat list \<times> world) res"
where
  "blocked_loop x 0 i new_blocked w = Inl OutOfFuel"
| "blocked_loop x (Suc n) i new_blocked w =
     (if i < length (blocked w)
      then
        (let e = blocked w ! i in
         case deref w e of
           None \<Rightarrow> Inl UseAfterFree
         | Some ev \<Rightarrow>
             if event_is_blocked ev w
             then blocked_loop x n (i + 1) (new_blocked @ [e]) w
             else bnd (event_fire_internal x ev w)
                    (\<lambda>w1. bnd (event_free e w1) (blocked_loop x n (i + 1) new_blocked)))
      else Inr (new_blocked, w))"

text \<open>
  The first statement of \<^verbatim>\<open>event_fire_delayed\<close>: the retry of the blocked queue, under
  its guard on \<^verbatim>\<open>is_event\<close>.
\<close>

definition fire_delayed_blocked :: "ext \<Rightarrow> nat \<Rightarrow> world \<Rightarrow> world res" where
  "fire_delayed_blocked x n w =
     (if blocked w \<noteq> [] \<and> is_event w = 1
      then bnd (blocked_loop x n 0 [] w)
             (\<lambda>(new_blocked, w1). Inr (w1\<lparr>blocked := new_blocked\<rparr>))
      else Inr w)"

text \<open>\<^verbatim>\<open>blocked.push_back(event_copy(e, 1))\<close>, as the drain and \<^verbatim>\<open>event_fire\<close> both do it.\<close>

definition enqueue_blocked :: "event_t \<Rightarrow> world \<Rightarrow> world" where
  "enqueue_blocked e w =
     (let (c, w1) = event_copy e True w in w1\<lparr>blocked := blocked w1 @ [c]\<rparr>)"

text \<open>The occurrence the drain builds for a captured signal number.\<close>

definition drained_event :: "ext \<Rightarrow> int \<Rightarrow> event_t" where
  "drained_event x s = (signal_event s)\<lparr>arguments := Some [sig2wcs x s]\<rparr>"

text \<open>
  The inner loop of the drain over the slot \<open>lst\<close>, whose address is taken once before
  the loop; its count is read again on every round.
\<close>

fun signal_loop :: "ext \<Rightarrow> nat \<Rightarrow> nat \<Rightarrow> nat \<Rightarrow> world \<Rightarrow> world res" where
  "signal_loop x 0 lst i w = Inl OutOfFuel"
| "signal_loop x (Suc n) lst i w =
     (if i < count (sig_list w lst)
      then
        (let e = drained_event x (signal (sig_list w lst) i) in
         if event_is_blocked e w
         then signal_loop x n lst (i + 1) (enqueue_blocked e w)
         else bnd (event_fire_internal x e w) (signal_loop x n lst (i + 1)))
      else Inr w)"

text \<open>
  The three assignments that switch the slots. \<^verbatim>\<open>active_list\<close> is 0 or 1, and
  \<open>1 - active_list\<close> is the other index.
\<close>

definition switch_lists :: "world \<Rightarrow> world" where
  "switch_lists w =
     (let a = 1 - active_list w
      in w\<lparr>sig_list := (sig_list w)(a := (sig_list w a)\<lparr>count := 0, overflow := 0\<rparr>),
           active_list := a\<rparr>)"

text \<open>
  The second statement of \<^verbatim>\<open>event_fire_delayed\<close>: the \<^verbatim>\<open>while\<close> loop of the drain. A
  handler can capture further signals, so every round takes fuel.
\<close>

fun fire_delayed_signals :: "ext \<Rightarrow> nat \<Rightarrow> world \<Rightarrow> world res" where
  "fire_delayed_signals x 0 w = Inl OutOfFuel"
| "fire_delayed_signals x (Suc n) w =
     (if count (sig_list w (active_list w)) > 0
      then
        (let w1 = switch_lists w;
             lst = 1 - active_list w1;
             w2 = (if overflow (sig_list w1 lst) \<noteq> 0
                   then debug ''Signal list overflow. Signals have been ignored.'' w1
                   else w1)
         in bnd (signal_loop x n lst 0 w2) (fire_delayed_signals x n))
      else Inr w)"

definition event_fire_delayed :: "ext \<Rightarrow> nat \<Rightarrow> world \<Rightarrow> world res" where
  "event_fire_delayed x n w = bnd (fire_delayed_blocked x n w) (fire_delayed_signals x n)"

definition event_fire_signal :: "int \<Rightarrow> world \<Rightarrow> world" where
  "event_fire_signal sig w =
     (let a = active_list w; l = sig_list w a in
      if count l < SIG_UNHANDLED_MAX
      then w\<lparr>sig_list := (sig_list w)(a := l\<lparr>signal := (signal l)(count l := sig),
                                                 count := count l + 1\<rparr>)\<rparr>
      else w\<lparr>sig_list := (sig_list w)(a := l\<lparr>overflow := 1\<rparr>)\<rparr>)"

text \<open>
  \<^verbatim>\<open>event_fire\<close>. \<open>n\<close> is the fuel for the loops of the delayed processing of this
  call; the calls that handler bodies make are inside \<open>parser_eval\<close>.
\<close>

definition event_fire :: "ext \<Rightarrow> nat \<Rightarrow> event_t option \<Rightarrow> world \<Rightarrow> world res" where
  "event_fire x n event w =
     (case event of
        Some e \<Rightarrow>
          if type e = EVENT_SIGNAL then Inr (event_fire_signal (param1 e) w)
          else
            bnd (event_fire_delayed x n (w\<lparr>is_event := is_event w + 1\<rparr>))
              (\<lambda>w1. bnd (if event_is_blocked e w1
                         then Inr (enqueue_blocked e w1)
                         else event_fire_internal x e w1)
                     (\<lambda>w3. Inr (w3\<lparr>is_event := is_event w3 - 1\<rparr>)))
      | None \<Rightarrow>
          bnd (event_fire_delayed x n (w\<lparr>is_event := is_event w + 1\<rparr>))
            (\<lambda>w1. Inr (w1\<lparr>is_event := is_event w1 - 1\<rparr>)))"

section \<open>Contracts of the evaluator\<close>

text \<open>
  What the caller of a handler sees of the interpreter: the last exit status, the
  interactive flag and its stack.
\<close>

definition caller_view :: "world \<Rightarrow> int \<times> int \<times> int list" where
  "caller_view w = (last_status w, is_interactive w, interactive_stack w)"

text \<open>
  The evaluator leaves the stack of saved interactive flags as it found it: whatever it
  pushes it pops again.
\<close>

definition keeps_interactive_stack :: "ext \<Rightarrow> bool" where
  "keeps_interactive_stack x =
     (\<forall>b v v'. parser_eval x b v = Inr v' \<longrightarrow> interactive_stack v' = interactive_stack v)"

text \<open>The start of one round of the drain: the slots change roles, an overflow is reported.\<close>

definition drain_start :: "world \<Rightarrow> world" where
  "drain_start w =
     (let w1 = switch_lists w in
      if overflow (sig_list w1 (1 - active_list w1)) \<noteq> 0
      then debug ''Signal list overflow. Signals have been ignored.'' w1
      else w1)"

section \<open>Scenarios\<close>

text \<open>Handlers that do nothing, an empty interpreter, and descriptors to register and fire.\<close>

definition quiet_ext :: ext where
  "quiet_ext =
     \<lparr>EVENT_ANY_SIGNAL = -1, EVENT_ANY_PID = 0, sig2wcs = (\<lambda>s. ''SIG''),
      escape_string = (\<lambda>s. s), parser_eval = (\<lambda>b w. Inr w)\<rparr>"

definition empty_slot :: signal_list_t where
  "empty_slot = \<lparr>count = 0, overflow = 0, signal = (\<lambda>i. 0)\<rparr>"

definition empty_world :: world where
  "empty_world =
     \<lparr>heap = [], events = [], killme = [], blocked = [], sig_list = (\<lambda>i. empty_slot),
      active_list = 0, is_event = 0, last_status = 0, is_interactive = 1,
      interactive_stack = [], current_block = [], global_event_blocks = (\<lambda>t. False),
      log = []\<rparr>"

definition handler :: "string \<Rightarrow> event_t \<Rightarrow> event_t" where
  "handler f e = e\<lparr>function_name := f\<rparr>"

definition generic_event :: "string \<Rightarrow> event_t" where
  "generic_event s = (event_t_init EVENT_GENERIC)\<lparr>str_param1 := s\<rparr>"

text \<open>The function \<open>f\<close> registered twice for signal 2.\<close>

definition two_signal_handlers :: world where
  "two_signal_handlers =
     event_add_handler (Some (handler ''f'' (signal_event 2)))
       (event_add_handler (Some (handler ''f'' (signal_event 2))) empty_world)"

text \<open>The functions \<open>h1\<close> and \<open>h2\<close>, in this order, registered for the generic event \<open>E\<close>.\<close>

definition two_generic_handlers :: world where
  "two_generic_handlers =
     event_add_handler (Some (handler ''h2'' (generic_event ''E'')))
       (event_add_handler (Some (handler ''h1'' (generic_event ''E''))) empty_world)"

text \<open>The body of \<open>h1\<close> erases the function \<open>h2\<close>; every other body does nothing.\<close>

definition unregister_h2 :: "string \<Rightarrow> world \<Rightarrow> world res" where
  "unregister_h2 b w =
     (if b = ''h1''
      then event_remove quiet_ext (Some (handler ''h2'' (event_t_init EVENT_ANY))) w
      else Inr w)"

text \<open>
  The body of \<open>h1\<close> erases the function \<open>h2\<close> and then fires the generic event \<open>F\<close>,
  which has no handler.
\<close>

definition unregister_h2_then_fire :: "string \<Rightarrow> world \<Rightarrow> world res" where
  "unregister_h2_then_fire b w =
     (if b = ''h1''
      then bnd (event_remove quiet_ext (Some (handler ''h2'' (event_t_init EVENT_ANY))) w)
             (event_fire quiet_ext 1 (Some (generic_event ''F'')))
      else Inr w)"

text \<open>
  A handler body that sets the exit status to 7 and fires the generic event \<open>F\<close>, whose
  own handlers set the status to 9.
\<close>

definition status_ext :: ext where
  "status_ext = quiet_ext\<lparr>parser_eval := (\<lambda>b w. Inr (w\<lparr>last_status := 9\<rparr>))\<rparr>"

definition nested_fire_ext :: ext where
  "nested_fire_ext =
     quiet_ext\<lparr>parser_eval :=
       (\<lambda>b w. event_fire status_ext 1 (Some (generic_event ''F'')) (w\<lparr>last_status := 7\<rparr>))\<rparr>"

definition nested_world :: world where
  "nested_world =
     event_add_handler (Some (handler ''h3'' (generic_event ''F'')))
       (event_add_handler (Some (handler ''h1'' (generic_event ''E'')))
          (empty_world\<lparr>last_status := 5\<rparr>))"

section \<open>The drain in the words of the specification\<close>

text \<open>
  The route of one occurrence in the specification's words: through the blocking check,
  then either onto the blocked queue or to the dispatch pass.
\<close>

definition deliver :: "ext \<Rightarrow> event_t \<Rightarrow> world \<Rightarrow> world res" where
  "deliver x e w = (if event_is_blocked e w then Inr (enqueue_blocked e w) else event_fire_internal x e w)"

text \<open>The same for the occurrences of a list of signal numbers, in order.\<close>

fun deliver_all :: "ext \<Rightarrow> int list \<Rightarrow> world \<Rightarrow> world res" where
  "deliver_all x [] w = Inr w"
| "deliver_all x (s # ss) w = bnd (deliver x (drained_event x s) w) (deliver_all x ss)"

text \<open>The signal numbers a slot holds, in the order they were captured.\<close>

definition stored :: "signal_list_t \<Rightarrow> int list" where
  "stored l = map (signal l) [0..<count l]"

text \<open>A sequence of calls of \<^verbatim>\<open>event_fire_signal\<close>.\<close>

definition capture_all :: "int list \<Rightarrow> world \<Rightarrow> world" where
  "capture_all sigs w = fold event_fire_signal sigs w"

text \<open>
  Between two states the active index and the slot that is being drained (the inactive
  one) are the same.
\<close>

definition slot_kept :: "world \<Rightarrow> world \<Rightarrow> bool" where
  "slot_kept w w' =
     (active_list w' = active_list w \<and>
      sig_list w' (1 - active_list w) = sig_list w (1 - active_list w))"

text \<open>
  The evaluator leaves the slot that is being drained alone: a handler body may capture
  signals into the active slot, but does not run a drain of its own.
\<close>

definition leaves_drained_slot :: "ext \<Rightarrow> bool" where
  "leaves_drained_slot x =
     (\<forall>b v v'. parser_eval x b v = Inr v' \<longrightarrow> slot_kept v v')"

text \<open>The two capture buffers and the index of the active one.\<close>

definition buffers :: "world \<Rightarrow> nat \<times> (nat \<Rightarrow> signal_list_t)" where
  "buffers w = (active_list w, sig_list w)"

text \<open>No captured signal is pending.\<close>

definition idle :: "world \<Rightarrow> bool" where
  "idle w = (count (sig_list w (active_list w)) = 0)"

text \<open>
  No signal arrives while a handler body runs, and the body fires no signal occurrence:
  started with nothing pending, the evaluator returns with the capture buffers as they
  were. The body may fire any other occurrence.
\<close>

definition no_signal_arrives :: "ext \<Rightarrow> bool" where
  "no_signal_arrives x =
     (\<forall>b v v'. idle v \<longrightarrow> parser_eval x b v = Inr v' \<longrightarrow> buffers v' = buffers v)"

section \<open>More scenarios\<close>

text \<open>Signal names for the scenarios.\<close>

definition tagged_ext :: ext where
  "tagged_ext = quiet_ext\<lparr>sig2wcs := (\<lambda>s. if s = 2 then ''INT'' else if s = 15 then ''TERM'' else ''SIG'')\<rparr>"

text \<open>One handler for every signal.\<close>

definition any_signal_world :: world where
  "any_signal_world = event_add_handler (Some (handler ''on_signal'' (signal_event (-1)))) empty_world"

text \<open>
  The handler of signal 2 fires the generic event \<open>F\<close> from its body; \<open>F\<close> has the
  handler \<open>on_F\<close>.
\<close>

definition refiring_ext :: ext where
  "refiring_ext =
     tagged_ext\<lparr>parser_eval :=
       (\<lambda>b w. if b = ''on_signal INT''
              then event_fire tagged_ext 3 (Some (generic_event ''F'')) w else Inr w)\<rparr>"

definition refire_world :: world where
  "refire_world =
     event_add_handler (Some (handler ''on_F'' (generic_event ''F''))) any_signal_world"

text \<open>Names for the signals 2, 3, 10 and 15.\<close>

definition named_ext :: ext where
  "named_ext =
     quiet_ext\<lparr>sig2wcs :=
       (\<lambda>s. if s = 2 then ''INT'' else if s = 3 then ''QUIT''
            else if s = 10 then ''USR1'' else if s = 15 then ''TERM'' else ''SIG'')\<rparr>"

text \<open>
  The body of the handler of signal 2: while it runs signal 10 arrives, and it fires the
  generic event \<open>F\<close>, which has no handler (as setting a variable does).
\<close>

definition late_signal_then_fire :: "string \<Rightarrow> world \<Rightarrow> world res" where
  "late_signal_then_fire b w =
     (if b = ''on_signal INT''
      then event_fire named_ext 3 (Some (generic_event ''F'')) (event_fire_signal 10 w)
      else Inr w)"

definition interrupted_ext :: ext where
  "interrupted_ext = named_ext\<lparr>parser_eval := late_signal_then_fire\<rparr>"

text \<open>One handler for every signal and the handler \<open>h1\<close> for the generic event \<open>E\<close>.\<close>

definition h1_world :: world where
  "h1_world = event_add_handler (Some (handler ''h1'' (generic_event ''E''))) any_signal_world"

text \<open>The same while signal events are blocked globally.\<close>

definition signals_blocked_world :: world where
  "signals_blocked_world = h1_world\<lparr>global_event_blocks := (\<lambda>t. t = EVENT_SIGNAL)\<rparr>"

text \<open>
  Inside a handler (\<open>is_event\<close> is 1 before the reentrant call and 2 within it): a
  handler for \<open>E\<close>, and an occurrence of \<open>E\<close> on the blocked queue that is no longer
  blocked.
\<close>

definition queued_world :: world where
  "queued_world =
     (enqueue_blocked (generic_event ''E'')
        (event_add_handler (Some (handler ''h1'' (generic_event ''E''))) empty_world))
     \<lparr>is_event := 2\<rparr>"

text \<open>A signal occurrence that carries a handler name and two arguments.\<close>

definition signal_with_baggage :: event_t where
  "signal_with_baggage = (handler ''f'' (signal_event 15))\<lparr>arguments := Some [''x'', ''y'']\<rparr>"

section \<open>A pass over quiet handlers\<close>




section \<open>Scenarios for blocking and null descriptors\<close>

text \<open>One handler for every signal, and signal 2 captured but not yet drained.\<close>

definition pending_signal_world :: world where
  "pending_signal_world = capture_all [2] any_signal_world"



section \<open>Basic facts\<close>

lemma bnd_Inl [simp]: "bnd (Inl e) f = Inl e"
  by (simp add: bnd_def)

lemma bnd_Inr [simp]: "bnd (Inr a) f = f a"
  by (simp add: bnd_def)

lemma bnd_eq_Inr: "bnd m f = Inr b \<longleftrightarrow> (\<exists>a. m = Inr a \<and> f a = Inr b)"
  by (cases m) simp_all

lemmas collaborator_defs =
  deref_def new_event_def emit_def signal_handle_def signal_block_def signal_unblock_def
  debug_def CHECK_failed_def proc_push_interactive_def proc_pop_interactive_def
  push_block_EVENT_def pop_block_def event_t_init_def signal_event_def

lemmas event_defs =
  event_match_def event_copy_def event_is_blocked_def event_free_def event_add_handler_def
  event_get_def event_remove_def event_free_kills_def event_is_killed_def command_line_def
  fire_handler_def event_fire_internal_def fire_delayed_blocked_def drained_event_def
  enqueue_blocked_def
  switch_lists_def event_fire_delayed_def event_fire_signal_def event_fire_def
  SIG_UNHANDLED_MAX_def

lemmas scenario_defs =
  quiet_ext_def empty_slot_def empty_world_def handler_def generic_event_def
  two_signal_handlers_def two_generic_handlers_def unregister_h2_def
  unregister_h2_then_fire_def status_ext_def nested_fire_ext_def nested_world_def

section \<open>What a handler invocation leaves unchanged\<close>

lemma free_all_only_heap: "free_all ps w = Inr w' \<Longrightarrow> \<exists>h. w' = w\<lparr>heap := h\<rparr>"
proof (induction ps arbitrary: w)
  case Nil
  have "w = w\<lparr>heap := heap w\<rparr>" by simp
  with Nil show ?case by (metis free_all.simps(1) sum.inject(2))
next
  case (Cons p ps)
  then obtain w1 where a: "event_free p w = Inr w1" and b: "free_all ps w1 = Inr w'"
    by (auto simp: bnd_eq_Inr)
  from a obtain h1 where "w1 = w\<lparr>heap := h1\<rparr>" by (auto simp: event_free_def split: option.splits)
  moreover from Cons.IH [OF b] obtain h where "w' = w1\<lparr>heap := h\<rparr>" by blast
  ultimately have "w' = w\<lparr>heap := h\<rparr>" by simp
  then show ?case by blast
qed

lemma event_free_kills_only:
  "event_free_kills w = Inr w' \<Longrightarrow> \<exists>h. w' = w\<lparr>heap := h, killme := []\<rparr>"
  unfolding event_free_kills_def
  by (auto simp: bnd_eq_Inr dest!: free_all_only_heap)

lemma enqueue_blocked_view: "caller_view (enqueue_blocked e w) = caller_view w"
  by (auto simp: enqueue_blocked_def event_copy_def new_event_def caller_view_def Let_def
        split: option.splits)

lemma event_free_kills_view: "event_free_kills w = Inr w' \<Longrightarrow> caller_view w' = caller_view w"
  by (auto dest!: event_free_kills_only simp: caller_view_def)

lemma event_free_view: "event_free p w = Inr w' \<Longrightarrow> caller_view w' = caller_view w"
  by (auto simp: event_free_def caller_view_def split: option.splits)

lemma fire_handler_Inr:
  assumes "fire_handler x event p w = Inr w'"
  obtains criterion w3 w4 where
    "deref w p = Some criterion"
    "parser_eval x (command_line x criterion event)
           (emit (Eval (command_line x criterion event))
              (push_block_EVENT event (proc_push_interactive 0 w))) = Inr w3"
    "proc_pop_interactive (pop_block w3) = Inr w4"
    "w' = w4\<lparr>last_status := last_status w\<rparr>"
  using assms
  by (auto simp: fire_handler_def Let_def bnd_eq_Inr proc_push_interactive_def split: option.splits)

lemma fire_handler_view:
  assumes "keeps_interactive_stack x" and "fire_handler x event p w = Inr w'"
  shows "caller_view w' = caller_view w"
proof -
  from assms(2) obtain criterion w3 w4 where
    ev: "parser_eval x (command_line x criterion event)
           (emit (Eval (command_line x criterion event))
              (push_block_EVENT event (proc_push_interactive 0 w))) = Inr w3"
    and pop: "proc_pop_interactive (pop_block w3) = Inr w4"
    and w': "w' = w4\<lparr>last_status := last_status w\<rparr>"
    by (rule fire_handler_Inr)
  from assms(1) ev have "interactive_stack w3 = is_interactive w # interactive_stack w"
    by (simp add: keeps_interactive_stack_def emit_def push_block_EVENT_def proc_push_interactive_def)
  with pop have "is_interactive w4 = is_interactive w \<and> interactive_stack w4 = interactive_stack w"
    by (auto simp: proc_pop_interactive_def pop_block_def split: list.splits)
  with w' show ?thesis by (simp add: caller_view_def)
qed

lemma fire_loop_view:
  "keeps_interactive_stack x \<Longrightarrow> fire_loop x event ps w = Inr w' \<Longrightarrow> caller_view w' = caller_view w"
proof (induction ps arbitrary: w)
  case Nil then show ?case by simp
next
  case (Cons p ps)
  show ?case
  proof (cases "event_is_killed p w")
    case True with Cons show ?thesis by simp
  next
    case False
    with Cons.prems obtain w1 where "fire_handler x event p w = Inr w1" "fire_loop x event ps w1 = Inr w'"
      by (auto simp: bnd_eq_Inr)
    with Cons.IH [of w1] Cons.prems(1) fire_handler_view [of x event p w w1] show ?thesis by simp
  qed
qed

lemma event_fire_internal_view:
  assumes "keeps_interactive_stack x" and "event_fire_internal x event w = Inr w'"
  shows "caller_view w' = caller_view w"
proof -
  from assms(2) obtain w1 where k: "event_free_kills w = Inr w1"
    and r: "(if events w1 = [] then Inr w1
             else bnd (fire_list x event (events w1) [] w1)
                    (\<lambda>fire. if fire = [] then Inr w1
                            else bnd (fire_loop x event fire w1) event_free_kills)) = Inr w'"
    by (auto simp: event_fire_internal_def bnd_eq_Inr)
  have "caller_view w' = caller_view w1"
  proof (cases "events w1 = []")
    case True with r show ?thesis by simp
  next
    case False
    with r obtain fire where f: "(if fire = [] then Inr w1
                            else bnd (fire_loop x event fire w1) event_free_kills) = Inr w'"
      by (auto simp: bnd_eq_Inr)
    show ?thesis
    proof (cases "fire = []")
      case True with f show ?thesis by simp
    next
      case False
      with f obtain w2 where "fire_loop x event fire w1 = Inr w2" "event_free_kills w2 = Inr w'"
        by (auto simp: bnd_eq_Inr)
      with assms(1) show ?thesis
        using fire_loop_view [of x event fire w1 w2] event_free_kills_view [of w2 w'] by simp
    qed
  qed
  with k show ?thesis using event_free_kills_view [of w w1] by simp
qed

lemma blocked_loop_view:
  "keeps_interactive_stack x \<Longrightarrow> blocked_loop x n i nb w = Inr (nb', w') \<Longrightarrow>
   caller_view w' = caller_view w"
proof (induction n arbitrary: i nb w)
  case 0 then show ?case by simp
next
  case (Suc n)
  show ?case
  proof (cases "i < length (blocked w)")
    case False with Suc.prems show ?thesis by simp
  next
    case True
    with Suc.prems obtain ev where d: "deref w (blocked w ! i) = Some ev"
      by (auto simp: Let_def split: option.splits)
    show ?thesis
    proof (cases "event_is_blocked ev w")
      case True
      with Suc.prems \<open>i < length (blocked w)\<close> d
      have "blocked_loop x n (i + 1) (nb @ [blocked w ! i]) w = Inr (nb', w')" by (simp add: Let_def)
      with Suc.IH Suc.prems(1) show ?thesis by blast
    next
      case False
      with Suc.prems \<open>i < length (blocked w)\<close> d obtain w1 w2 where
        "event_fire_internal x ev w = Inr w1" "event_free (blocked w ! i) w1 = Inr w2"
        "blocked_loop x n (i + 1) nb w2 = Inr (nb', w')"
        by (auto simp: Let_def bnd_eq_Inr)
      with Suc.IH [of "i + 1" nb w2] Suc.prems(1) event_fire_internal_view [of x ev w w1]
        event_free_view [of "blocked w ! i" w1 w2]
      show ?thesis by simp
    qed
  qed
qed

lemma fire_delayed_blocked_view:
  "keeps_interactive_stack x \<Longrightarrow> fire_delayed_blocked x n w = Inr w' \<Longrightarrow>
   caller_view w' = caller_view w"
  by (auto simp: fire_delayed_blocked_def bnd_eq_Inr split: if_splits dest!: blocked_loop_view)
     (simp add: caller_view_def)

lemma signal_loop_view:
  "keeps_interactive_stack x \<Longrightarrow> signal_loop x n lst i w = Inr w' \<Longrightarrow>
   caller_view w' = caller_view w"
proof (induction n arbitrary: i w)
  case 0 then show ?case by simp
next
  case (Suc n)
  show ?case
  proof (cases "i < count (sig_list w lst)")
    case False with Suc.prems show ?thesis by simp
  next
    case True
    let ?e = "drained_event x (signal (sig_list w lst) i)"
    show ?thesis
    proof (cases "event_is_blocked ?e w")
      case True
      have v: "caller_view (enqueue_blocked ?e w) = caller_view w"
        by (rule enqueue_blocked_view)
      from Suc.prems \<open>i < count (sig_list w lst)\<close> True
      have "signal_loop x n lst (i + 1) (enqueue_blocked ?e w) = Inr w'"
        by (simp add: Let_def)
      with Suc.IH Suc.prems(1) v show ?thesis by metis
    next
      case False
      with Suc.prems \<open>i < count (sig_list w lst)\<close> obtain w1 where
        "event_fire_internal x ?e w = Inr w1" "signal_loop x n lst (i + 1) w1 = Inr w'"
        by (auto simp: Let_def bnd_eq_Inr)
      with Suc.IH [of "i + 1" w1] Suc.prems(1) event_fire_internal_view [of x ?e w w1]
      show ?thesis by simp
    qed
  qed
qed

lemma fire_delayed_signals_Suc:
  "fire_delayed_signals x (Suc n) w =
     (if count (sig_list w (active_list w)) > 0
      then bnd (signal_loop x n (1 - active_list (switch_lists w)) 0 (drain_start w))
             (fire_delayed_signals x n)
      else Inr w)"
  by (simp add: drain_start_def Let_def)

lemma fire_delayed_signals_view:
  "keeps_interactive_stack x \<Longrightarrow> fire_delayed_signals x n w = Inr w' \<Longrightarrow>
   caller_view w' = caller_view w"
proof (induction n arbitrary: w)
  case 0 then show ?case by simp
next
  case (Suc n)
  show ?case
  proof (cases "count (sig_list w (active_list w)) > 0")
    case False with Suc.prems show ?thesis by simp
  next
    case True
    have v: "caller_view (drain_start w) = caller_view w"
      by (simp add: drain_start_def switch_lists_def debug_def emit_def caller_view_def Let_def)
    from Suc.prems(2) True obtain w3 where
      "signal_loop x n (1 - active_list (switch_lists w)) 0 (drain_start w) = Inr w3"
      "fire_delayed_signals x n w3 = Inr w'"
      unfolding fire_delayed_signals_Suc by (auto simp: bnd_eq_Inr)
    with Suc.IH [of w3] Suc.prems(1) signal_loop_view [of x n _ 0 "drain_start w" w3] v
    show ?thesis by simp
  qed
qed

lemma event_fire_delayed_view:
  "keeps_interactive_stack x \<Longrightarrow> event_fire_delayed x n w = Inr w' \<Longrightarrow>
   caller_view w' = caller_view w"
proof -
  assume k: "keeps_interactive_stack x" and a: "event_fire_delayed x n w = Inr w'"
  from a obtain w1 where "fire_delayed_blocked x n w = Inr w1" "fire_delayed_signals x n w1 = Inr w'"
    by (auto simp: event_fire_delayed_def bnd_eq_Inr)
  with k show ?thesis
    using fire_delayed_blocked_view [of x n w w1] fire_delayed_signals_view [of x n w1 w'] by simp
qed

lemma event_fire_view:
  assumes "keeps_interactive_stack x" and "event_fire x n event w = Inr w'"
  shows "caller_view w' = caller_view w"
proof (cases event)
  case None
  with assms(2) obtain w1 where "event_fire_delayed x n (w\<lparr>is_event := is_event w + 1\<rparr>) = Inr w1"
    "w' = w1\<lparr>is_event := is_event w1 - 1\<rparr>"
    by (auto simp: event_fire_def bnd_eq_Inr)
  with assms(1) event_fire_delayed_view [of x n "w\<lparr>is_event := is_event w + 1\<rparr>" w1]
  show ?thesis by (simp add: caller_view_def)
next
  case (Some e)
  show ?thesis
  proof (cases "type e = EVENT_SIGNAL")
    case True
    with Some assms(2) show ?thesis
      by (auto simp: event_fire_def event_fire_signal_def caller_view_def Let_def split: if_splits)
  next
    case False
    with Some assms(2) obtain w1 w3 where
      d: "event_fire_delayed x n (w\<lparr>is_event := is_event w + 1\<rparr>) = Inr w1"
      and s: "(if event_is_blocked e w1 then Inr (enqueue_blocked e w1)
                else event_fire_internal x e w1) = Inr w3"
      and w': "w' = w3\<lparr>is_event := is_event w3 - 1\<rparr>"
      by (auto simp: event_fire_def bnd_eq_Inr)
    from s assms(1) have "caller_view w3 = caller_view w1"
      by (auto simp: enqueue_blocked_view split: if_splits dest: event_fire_internal_view)
    moreover from d assms(1) have "caller_view w1 = caller_view w"
      using event_fire_delayed_view [of x n "w\<lparr>is_event := is_event w + 1\<rparr>" w1]
      by (simp add: caller_view_def)
    ultimately show ?thesis using w' by (simp add: caller_view_def)
  qed
qed

section \<open>Facts about the drain\<close>

lemma slot_kept_refl [simp]: "slot_kept w w"
  by (simp add: slot_kept_def)

lemma slot_kept_trans: "slot_kept a b \<Longrightarrow> slot_kept b c \<Longrightarrow> slot_kept a c"
  by (auto simp: slot_kept_def)

lemma bnd_assoc: "bnd (bnd m f) g = bnd m (\<lambda>a. bnd (f a) g)"
  by (cases m) simp_all

lemma bnd_cong_Inr: "(\<And>a. m = Inr a \<Longrightarrow> f a = g a) \<Longrightarrow> bnd m f = bnd m g"
  by (cases m) simp_all

lemma signal_loop_step:
  "i < count (sig_list w lst) \<Longrightarrow>
   signal_loop x (Suc n) lst i w =
     bnd (deliver x (drained_event x (signal (sig_list w lst) i)) w) (signal_loop x n lst (Suc i))"
  by (simp add: deliver_def Let_def)

lemma event_fire_Some:
  "event_fire x n (Some e) w =
     (if type e = EVENT_SIGNAL then Inr (event_fire_signal (param1 e) w)
      else bnd (event_fire_delayed x n (w\<lparr>is_event := is_event w + 1\<rparr>))
             (\<lambda>w1. bnd (deliver x e w1) (\<lambda>w3. Inr (w3\<lparr>is_event := is_event w3 - 1\<rparr>))))"
  by (simp add: event_fire_def deliver_def)

lemma fire_delayed_signals_done:
  "fire_delayed_signals x n w = Inr w' \<Longrightarrow> count (sig_list w' (active_list w')) = 0"
proof (induction n arbitrary: w)
  case 0 then show ?case by simp
next
  case (Suc n)
  show ?case
  proof (cases "count (sig_list w (active_list w)) > 0")
    case False with Suc.prems show ?thesis by simp
  next
    case True
    with Suc.prems obtain w3 where "fire_delayed_signals x n w3 = Inr w'"
      unfolding fire_delayed_signals_Suc by (auto simp: bnd_eq_Inr)
    with Suc.IH show ?thesis by blast
  qed
qed

lemma event_fire_delayed_done:
  "event_fire_delayed x n w = Inr w' \<Longrightarrow> count (sig_list w' (active_list w')) = 0"
  by (auto simp: event_fire_delayed_def bnd_eq_Inr dest: fire_delayed_signals_done)

lemma fire_handler_slot:
  assumes "leaves_drained_slot x" and "fire_handler x event p w = Inr w'"
  shows "slot_kept w w'"
proof -
  from assms(2) obtain criterion w3 w4 where
    ev: "parser_eval x (command_line x criterion event)
           (emit (Eval (command_line x criterion event))
              (push_block_EVENT event (proc_push_interactive 0 w))) = Inr w3"
    and pop: "proc_pop_interactive (pop_block w3) = Inr w4"
    and w': "w' = w4\<lparr>last_status := last_status w\<rparr>"
    by (rule fire_handler_Inr)
  from assms(1) [unfolded leaves_drained_slot_def, rule_format, OF ev]
  have "slot_kept w w3"
    by (simp add: slot_kept_def emit_def push_block_EVENT_def proc_push_interactive_def)
  moreover from pop have "slot_kept w3 w4"
    by (auto simp: proc_pop_interactive_def pop_block_def slot_kept_def split: list.splits)
  ultimately have "slot_kept w w4" by (metis slot_kept_trans)
  with w' show ?thesis by (simp add: slot_kept_def)
qed

lemma event_free_kills_slot: "event_free_kills w = Inr w' \<Longrightarrow> slot_kept w w'"
  by (auto dest!: event_free_kills_only simp: slot_kept_def)

lemma fire_loop_slot:
  "leaves_drained_slot x \<Longrightarrow> fire_loop x event ps w = Inr w' \<Longrightarrow> slot_kept w w'"
proof (induction ps arbitrary: w)
  case Nil then show ?case by simp
next
  case (Cons p ps)
  show ?case
  proof (cases "event_is_killed p w")
    case True with Cons show ?thesis by simp
  next
    case False
    with Cons.prems obtain w1 where "fire_handler x event p w = Inr w1" "fire_loop x event ps w1 = Inr w'"
      by (auto simp: bnd_eq_Inr)
    with Cons.IH [of w1] Cons.prems(1) fire_handler_slot [of x event p w w1] show ?thesis
      by (metis slot_kept_trans)
  qed
qed

lemma event_fire_internal_slot:
  assumes "leaves_drained_slot x" and "event_fire_internal x event w = Inr w'"
  shows "slot_kept w w'"
proof -
  from assms(2) obtain w1 where k: "event_free_kills w = Inr w1"
    and r: "(if events w1 = [] then Inr w1
             else bnd (fire_list x event (events w1) [] w1)
                    (\<lambda>fire. if fire = [] then Inr w1
                            else bnd (fire_loop x event fire w1) event_free_kills)) = Inr w'"
    by (auto simp: event_fire_internal_def bnd_eq_Inr)
  have "slot_kept w1 w'"
  proof (cases "events w1 = []")
    case True with r show ?thesis by (simp add: slot_kept_def)
  next
    case False
    with r obtain fire where f: "(if fire = [] then Inr w1
                            else bnd (fire_loop x event fire w1) event_free_kills) = Inr w'"
      by (auto simp: bnd_eq_Inr)
    show ?thesis
    proof (cases "fire = []")
      case True with f show ?thesis by (simp add: slot_kept_def)
    next
      case False
      with f obtain w2 where "fire_loop x event fire w1 = Inr w2" "event_free_kills w2 = Inr w'"
        by (auto simp: bnd_eq_Inr)
      with assms(1) show ?thesis
        using fire_loop_slot [of x event fire w1 w2] event_free_kills_slot [of w2 w']
        by (metis slot_kept_trans)
    qed
  qed
  with k show ?thesis using event_free_kills_slot [of w w1] by (metis slot_kept_trans)
qed

lemma enqueue_blocked_slot: "slot_kept w (enqueue_blocked e w)"
  by (auto simp: enqueue_blocked_def event_copy_def new_event_def slot_kept_def Let_def
        split: option.splits)

lemma deliver_slot:
  "leaves_drained_slot x \<Longrightarrow> deliver x e w = Inr w' \<Longrightarrow> slot_kept w w'"
  by (auto simp: deliver_def enqueue_blocked_slot split: if_splits dest: event_fire_internal_slot)

lemma signal_loop_deliver_all:
  "leaves_drained_slot x \<Longrightarrow> lst = 1 - active_list w \<Longrightarrow> i \<le> count (sig_list w lst) \<Longrightarrow>
   count (sig_list w lst) - i < n \<Longrightarrow>
   signal_loop x n lst i w =
     deliver_all x (map (signal (sig_list w lst)) [i..<count (sig_list w lst)]) w"
proof (induction n arbitrary: i w)
  case 0 then show ?case by simp
next
  case (Suc n)
  let ?l = "sig_list w lst"
  show ?case
  proof (cases "i < count ?l")
    case False
    with Suc.prems show ?thesis by simp
  next
    case True
    then have up: "[i..<count ?l] = i # [Suc i..<count ?l]" by (simp add: upt_conv_Cons)
    have "bnd (deliver x (drained_event x (signal ?l i)) w) (signal_loop x n lst (Suc i)) =
          bnd (deliver x (drained_event x (signal ?l i)) w)
            (deliver_all x (map (signal ?l) [Suc i..<count ?l]))"
    proof (rule bnd_cong_Inr)
      fix w1 assume d: "deliver x (drained_event x (signal ?l i)) w = Inr w1"
      with Suc.prems(1) have s: "slot_kept w w1" by (rule deliver_slot)
      with Suc.prems(2) have l: "sig_list w1 lst = ?l" and a: "lst = 1 - active_list w1"
        by (simp_all add: slot_kept_def)
      from True Suc.prems(4) have "Suc i \<le> count (sig_list w1 lst)" "count (sig_list w1 lst) - Suc i < n"
        by (simp_all add: l)
      from Suc.IH [OF Suc.prems(1) a this] show "signal_loop x n lst (Suc i) w1 =
          deliver_all x (map (signal ?l) [Suc i..<count ?l]) w1" by (simp add: l)
    qed
    with True show ?thesis by (simp add: signal_loop_step up del: signal_loop.simps)
  qed
qed

lemma drain_start_slot:
  "active_list w \<le> 1 \<Longrightarrow>
   active_list (drain_start w) = 1 - active_list w \<and>
   sig_list (drain_start w) (active_list w) = sig_list w (active_list w) \<and>
   count (sig_list (drain_start w) (1 - active_list w)) = 0"
proof -
  assume "active_list w \<le> 1"
  then have "active_list w = 0 \<or> active_list w = 1" by arith
  then show ?thesis
    by (auto simp: drain_start_def switch_lists_def debug_def emit_def Let_def)
qed

lemma drain_start_log:
  "active_list w \<le> 1 \<Longrightarrow>
   log (drain_start w) =
     log w @ (if overflow (sig_list w (active_list w)) \<noteq> 0
              then [Debug ''Signal list overflow. Signals have been ignored.''] else [])"
proof -
  assume "active_list w \<le> 1"
  then have "active_list w = 0 \<or> active_list w = 1" by arith
  then show ?thesis
    by (auto simp: drain_start_def switch_lists_def debug_def emit_def Let_def)
qed

lemma fire_delayed_signals_round:
  assumes "leaves_drained_slot x" "active_list w \<le> 1"
    "0 < count (sig_list w (active_list w))" "count (sig_list w (active_list w)) < n"
  shows "fire_delayed_signals x (Suc n) w =
           bnd (deliver_all x (stored (sig_list w (active_list w))) (drain_start w))
             (fire_delayed_signals x n)"
proof -
  let ?a = "active_list w"
  from assms(2) have a: "1 - active_list (switch_lists w) = ?a" by (simp add: switch_lists_def Let_def)
  from assms(2) have b: "?a = 1 - active_list (drain_start w)"
    and c: "sig_list (drain_start w) ?a = sig_list w ?a"
    using drain_start_slot [of w] by simp_all
  have "signal_loop x n ?a 0 (drain_start w) =
        deliver_all x (map (signal (sig_list (drain_start w) ?a))
          [0..<count (sig_list (drain_start w) ?a)]) (drain_start w)"
    using assms(1) b by (rule signal_loop_deliver_all) (simp_all add: c assms)
  then have "signal_loop x n ?a 0 (drain_start w) =
        deliver_all x (stored (sig_list w ?a)) (drain_start w)"
    by (simp add: c stored_def)
  moreover have "fire_delayed_signals x (Suc n) w =
      bnd (signal_loop x n ?a 0 (drain_start w)) (fire_delayed_signals x n)"
    using assms(3) unfolding fire_delayed_signals_Suc a by simp
  ultimately show ?thesis by simp
qed

lemma event_fire_signal_only_sig_list:
  "\<exists>sl. event_fire_signal s w = w\<lparr>sig_list := sl\<rparr>"
  by (auto simp: event_fire_signal_def Let_def)

lemma event_fire_signal_active [simp]: "active_list (event_fire_signal s w) = active_list w"
  by (simp add: event_fire_signal_def Let_def)

lemma event_fire_signal_slot:
  "sig_list (event_fire_signal s w) (active_list w) =
     (let l = sig_list w (active_list w) in
      if count l < 64 then l\<lparr>signal := (signal l)(count l := s), count := count l + 1\<rparr>
      else l\<lparr>overflow := 1\<rparr>)"
  by (simp add: event_fire_signal_def Let_def SIG_UNHANDLED_MAX_def)

lemma event_fire_signal_other_slot:
  "a \<noteq> active_list w \<Longrightarrow> sig_list (event_fire_signal s w) a = sig_list w a"
  by (simp add: event_fire_signal_def Let_def)

lemma stored_append [simp]:
  "stored (l\<lparr>signal := (signal l)(count l := s), count := Suc (count l)\<rparr>) = stored l @ [s]"
  by (simp add: stored_def)

lemma stored_overflow [simp]: "stored (l\<lparr>overflow := v\<rparr>) = stored l"
  by (simp add: stored_def)

lemma length_stored [simp]: "length (stored l) = count l"
  by (simp add: stored_def)

lemma capture_all_active [simp]: "active_list (capture_all sigs w) = active_list w"
  by (induction sigs arbitrary: w) (simp_all add: capture_all_def)

lemma capture_all_slot:
  "count (sig_list w (active_list w)) \<le> 64 \<Longrightarrow>
   (let l = sig_list w (active_list w); l' = sig_list (capture_all sigs w) (active_list w) in
      stored l' = take 64 (stored l @ sigs) \<and>
      count l' = min (count l + length sigs) 64 \<and>
      (overflow l' \<noteq> 0 \<longleftrightarrow> overflow l \<noteq> 0 \<or> 64 < count l + length sigs))"
proof (induction sigs arbitrary: w)
  case Nil
  then show ?case by (simp add: capture_all_def Let_def)
next
  case (Cons s sigs)
  let ?w1 = "event_fire_signal s w"
  let ?l = "sig_list w (active_list w)"
  let ?l1 = "sig_list ?w1 (active_list w)"
  let ?l' = "sig_list (capture_all sigs ?w1) (active_list w)"
  have c: "capture_all (s # sigs) w = capture_all sigs ?w1" by (simp add: capture_all_def)
  have step: "(count ?l < 64 \<longrightarrow> stored ?l1 = stored ?l @ [s] \<and> count ?l1 = Suc (count ?l) \<and>
                 overflow ?l1 = overflow ?l) \<and>
              (count ?l = 64 \<longrightarrow> stored ?l1 = stored ?l \<and> count ?l1 = 64 \<and> overflow ?l1 = 1)"
    by (simp add: event_fire_signal_slot Let_def)
  with Cons.prems have "count (sig_list ?w1 (active_list ?w1)) \<le> 64"
    by (cases "count ?l < 64") auto
  from Cons.IH [OF this]
  have ih: "stored ?l' = take 64 (stored ?l1 @ sigs)" "count ?l' = min (count ?l1 + length sigs) 64"
    "(overflow ?l' \<noteq> 0) = (overflow ?l1 \<noteq> 0 \<or> 64 < count ?l1 + length sigs)"
    by (simp_all add: Let_def)
  show ?case
  proof (cases "count ?l < 64")
    case True
    with step have "stored ?l1 = stored ?l @ [s]" "count ?l1 = Suc (count ?l)"
      "overflow ?l1 = overflow ?l" by simp_all
    with ih show ?thesis unfolding c Let_def by simp
  next
    case False
    with Cons.prems have e: "count ?l = 64" by simp
    with step have "stored ?l1 = stored ?l" "count ?l1 = 64" "overflow ?l1 = 1" by simp_all
    with ih e show ?thesis unfolding c Let_def by simp
  qed
qed

lemma capture_all_only_sig_list: "\<exists>sl. capture_all sigs w = w\<lparr>sig_list := sl\<rparr>"
proof (induction sigs arbitrary: w)
  case Nil
  have "w = w\<lparr>sig_list := sig_list w\<rparr>" by simp
  then show ?case unfolding capture_all_def by (metis fold_simps(1))
next
  case (Cons s sigs)
  obtain sl where a: "event_fire_signal s w = w\<lparr>sig_list := sl\<rparr>"
    using event_fire_signal_only_sig_list by blast
  obtain sl' where "capture_all sigs (w\<lparr>sig_list := sl\<rparr>) = w\<lparr>sig_list := sl, sig_list := sl'\<rparr>"
    using Cons.IH by blast
  with a have "capture_all (s # sigs) w = w\<lparr>sig_list := sl'\<rparr>" by (simp add: capture_all_def)
  then show ?case by blast
qed

lemma fire_delayed_signals_idle:
  "count (sig_list w (active_list w)) = 0 \<Longrightarrow> 0 < n \<Longrightarrow> fire_delayed_signals x n w = Inr w"
  by (cases n) simp_all

lemma idle_buffers: "buffers w' = buffers w \<Longrightarrow> idle w \<Longrightarrow> idle w'"
  by (simp add: buffers_def idle_def)

lemma event_free_kills_buffers: "event_free_kills w = Inr w' \<Longrightarrow> buffers w' = buffers w"
  by (auto dest!: event_free_kills_only simp: buffers_def)

lemma event_free_buffers: "event_free p w = Inr w' \<Longrightarrow> buffers w' = buffers w"
  by (auto simp: event_free_def buffers_def split: option.splits)

lemma enqueue_blocked_buffers: "buffers (enqueue_blocked e w) = buffers w"
  by (auto simp: enqueue_blocked_def event_copy_def new_event_def buffers_def Let_def
        split: option.splits)

lemma fire_handler_buffers:
  assumes "no_signal_arrives x" and "idle w" and "fire_handler x event p w = Inr w'"
  shows "buffers w' = buffers w"
proof -
  let ?w2 = "\<lambda>c. emit (Eval (command_line x c event))
              (push_block_EVENT event (proc_push_interactive 0 w))"
  from assms(3) obtain criterion w3 w4 where
    ev: "parser_eval x (command_line x criterion event) (?w2 criterion) = Inr w3"
    and pop: "proc_pop_interactive (pop_block w3) = Inr w4"
    and w': "w' = w4\<lparr>last_status := last_status w\<rparr>"
    by (rule fire_handler_Inr)
  have b2: "buffers (?w2 criterion) = buffers w"
    by (simp add: buffers_def emit_def push_block_EVENT_def proc_push_interactive_def)
  with assms(2) have "idle (?w2 criterion)" using idle_buffers by blast
  with assms(1) ev have "buffers w3 = buffers (?w2 criterion)"
    unfolding no_signal_arrives_def by blast
  moreover from pop have "buffers w4 = buffers w3"
    by (auto simp: proc_pop_interactive_def pop_block_def buffers_def split: list.splits)
  ultimately show ?thesis using w' b2 by (simp add: buffers_def)
qed

lemma fire_loop_buffers:
  "no_signal_arrives x \<Longrightarrow> idle w \<Longrightarrow> fire_loop x event ps w = Inr w' \<Longrightarrow>
   buffers w' = buffers w"
proof (induction ps arbitrary: w)
  case Nil then show ?case by simp
next
  case (Cons p ps)
  show ?case
  proof (cases "event_is_killed p w")
    case True
    with Cons.prems(3) have "fire_loop x event ps w = Inr w'" by simp
    with Cons.prems(1,2) show ?thesis by (rule Cons.IH)
  next
    case False
    with Cons.prems(3) obtain w1 where f: "fire_handler x event p w = Inr w1"
      and l: "fire_loop x event ps w1 = Inr w'"
      by (auto simp: bnd_eq_Inr)
    from Cons.prems(1,2) f have b: "buffers w1 = buffers w" by (rule fire_handler_buffers)
    with Cons.prems(2) have "idle w1" using idle_buffers by blast
    then have "buffers w' = buffers w1" using Cons.prems(1) l Cons.IH by blast
    with b show ?thesis by simp
  qed
qed

lemma event_fire_internal_buffers:
  assumes "no_signal_arrives x" and "idle w" and "event_fire_internal x event w = Inr w'"
  shows "buffers w' = buffers w"
proof -
  from assms(3) obtain w1 where k: "event_free_kills w = Inr w1"
    and r: "(if events w1 = [] then Inr w1
             else bnd (fire_list x event (events w1) [] w1)
                    (\<lambda>fire. if fire = [] then Inr w1
                            else bnd (fire_loop x event fire w1) event_free_kills)) = Inr w'"
    by (auto simp: event_fire_internal_def bnd_eq_Inr)
  from k have b1: "buffers w1 = buffers w" by (rule event_free_kills_buffers)
  with assms(2) have i1: "idle w1" using idle_buffers by blast
  have "buffers w' = buffers w1"
  proof (cases "events w1 = []")
    case True with r show ?thesis by simp
  next
    case False
    with r obtain fire where f: "(if fire = [] then Inr w1
                            else bnd (fire_loop x event fire w1) event_free_kills) = Inr w'"
      by (auto simp: bnd_eq_Inr)
    show ?thesis
    proof (cases "fire = []")
      case True with f show ?thesis by simp
    next
      case False
      with f obtain w2 where "fire_loop x event fire w1 = Inr w2" "event_free_kills w2 = Inr w'"
        by (auto simp: bnd_eq_Inr)
      with assms(1) i1 show ?thesis
        using fire_loop_buffers [of x w1 event fire w2] event_free_kills_buffers [of w2 w'] by simp
    qed
  qed
  with b1 show ?thesis by simp
qed

lemma deliver_buffers:
  "no_signal_arrives x \<Longrightarrow> idle w \<Longrightarrow> deliver x e w = Inr w' \<Longrightarrow> buffers w' = buffers w"
  by (auto simp: deliver_def enqueue_blocked_buffers split: if_splits
        dest: event_fire_internal_buffers)

lemma deliver_all_buffers:
  "no_signal_arrives x \<Longrightarrow> idle w \<Longrightarrow> deliver_all x ss w = Inr w' \<Longrightarrow> buffers w' = buffers w"
proof (induction ss arbitrary: w)
  case Nil then show ?case by simp
next
  case (Cons s ss)
  then obtain w1 where d: "deliver x (drained_event x s) w = Inr w1"
    and r: "deliver_all x ss w1 = Inr w'"
    by (auto simp: bnd_eq_Inr)
  from Cons.prems(1,2) d have b: "buffers w1 = buffers w" by (rule deliver_buffers)
  with Cons.prems(2) have "idle w1" using idle_buffers by blast
  with Cons.IH [OF Cons.prems(1) _ r] b show ?case by simp
qed

lemma blocked_loop_buffers:
  "no_signal_arrives x \<Longrightarrow> idle w \<Longrightarrow> blocked_loop x n i nb w = Inr (nb', w') \<Longrightarrow>
   buffers w' = buffers w"
proof (induction n arbitrary: i nb w)
  case 0 then show ?case by simp
next
  case (Suc n)
  show ?case
  proof (cases "i < length (blocked w)")
    case False with Suc.prems show ?thesis by simp
  next
    case True
    with Suc.prems obtain ev where d: "deref w (blocked w ! i) = Some ev"
      by (auto simp: Let_def split: option.splits)
    show ?thesis
    proof (cases "event_is_blocked ev w")
      case True
      with Suc.prems \<open>i < length (blocked w)\<close> d
      have "blocked_loop x n (i + 1) (nb @ [blocked w ! i]) w = Inr (nb', w')" by (simp add: Let_def)
      with Suc.IH Suc.prems(1,2) show ?thesis by blast
    next
      case False
      with Suc.prems \<open>i < length (blocked w)\<close> d obtain w1 w2 where
        f: "event_fire_internal x ev w = Inr w1" and e: "event_free (blocked w ! i) w1 = Inr w2"
        and l: "blocked_loop x n (i + 1) nb w2 = Inr (nb', w')"
        by (auto simp: Let_def bnd_eq_Inr)
      from Suc.prems(1,2) f have "buffers w1 = buffers w" by (rule event_fire_internal_buffers)
      moreover from e have "buffers w2 = buffers w1" by (rule event_free_buffers)
      ultimately have b: "buffers w2 = buffers w" by simp
      with Suc.prems(2) have "idle w2" using idle_buffers by blast
      with Suc.IH [OF Suc.prems(1) _ l] b show ?thesis by simp
    qed
  qed
qed

lemma event_fire_delayed_buffers:
  assumes "no_signal_arrives x" and "idle w" and "event_fire_delayed x n w = Inr w'"
  shows "buffers w' = buffers w"
proof -
  from assms(3) obtain w1 where b: "fire_delayed_blocked x n w = Inr w1"
    and s: "fire_delayed_signals x n w1 = Inr w'"
    by (auto simp: event_fire_delayed_def bnd_eq_Inr)
  have b1: "buffers w1 = buffers w"
  proof (cases "blocked w \<noteq> [] \<and> is_event w = 1")
    case False with b show ?thesis by (auto simp: fire_delayed_blocked_def)
  next
    case True
    with b obtain nb w0 where "blocked_loop x n 0 [] w = Inr (nb, w0)" "w1 = w0\<lparr>blocked := nb\<rparr>"
      by (auto simp: fire_delayed_blocked_def bnd_eq_Inr)
    with assms(1,2) blocked_loop_buffers [of x w n 0 "[]" nb w0] show ?thesis
      by (simp add: buffers_def)
  qed
  with assms(2) have "idle w1" using idle_buffers by blast
  with s have "w' = w1" by (cases n) (simp_all add: idle_def)
  with b1 show ?thesis by simp
qed

lemma event_fire_buffers:
  assumes "no_signal_arrives x" and "idle w" and "event = None \<or> (\<exists>e. event = Some e \<and> type e \<noteq> EVENT_SIGNAL)"
    and "event_fire x n event w = Inr w'"
  shows "buffers w' = buffers w"
proof -
  let ?w0 = "w\<lparr>is_event := is_event w + 1\<rparr>"
  have i0: "idle ?w0" and b0: "buffers ?w0 = buffers w" using assms(2) by (simp_all add: idle_def buffers_def)
  show ?thesis
  proof (cases event)
    case None
    with assms(4) obtain w1 where d: "event_fire_delayed x n ?w0 = Inr w1"
      and w': "w' = w1\<lparr>is_event := is_event w1 - 1\<rparr>"
      by (auto simp: event_fire_def bnd_eq_Inr)
    from assms(1) i0 d have "buffers w1 = buffers ?w0" by (rule event_fire_delayed_buffers)
    with w' b0 show ?thesis by (simp add: buffers_def)
  next
    case (Some e)
    with assms(3) have t: "type e \<noteq> EVENT_SIGNAL" by simp
    with Some assms(4) obtain w1 w3 where d: "event_fire_delayed x n ?w0 = Inr w1"
      and s: "deliver x e w1 = Inr w3" and w': "w' = w3\<lparr>is_event := is_event w3 - 1\<rparr>"
      by (auto simp: event_fire_Some bnd_eq_Inr)
    from assms(1) i0 d have b1: "buffers w1 = buffers ?w0" by (rule event_fire_delayed_buffers)
    with i0 have "idle w1" using idle_buffers by blast
    with assms(1) s have "buffers w3 = buffers w1" using deliver_buffers by blast
    with b1 b0 w' show ?thesis by (simp add: buffers_def)
  qed
qed

lemma signal_loop_deliver_all_idle:
  "no_signal_arrives x \<Longrightarrow> idle w \<Longrightarrow> i \<le> count (sig_list w lst) \<Longrightarrow>
   count (sig_list w lst) - i < n \<Longrightarrow>
   signal_loop x n lst i w =
     deliver_all x (map (signal (sig_list w lst)) [i..<count (sig_list w lst)]) w"
proof (induction n arbitrary: i w)
  case 0 then show ?case by simp
next
  case (Suc n)
  let ?l = "sig_list w lst"
  show ?case
  proof (cases "i < count ?l")
    case False
    with Suc.prems show ?thesis by simp
  next
    case True
    then have up: "[i..<count ?l] = i # [Suc i..<count ?l]" by (simp add: upt_conv_Cons)
    have "bnd (deliver x (drained_event x (signal ?l i)) w) (signal_loop x n lst (Suc i)) =
          bnd (deliver x (drained_event x (signal ?l i)) w)
            (deliver_all x (map (signal ?l) [Suc i..<count ?l]))"
    proof (rule bnd_cong_Inr)
      fix w1 assume d: "deliver x (drained_event x (signal ?l i)) w = Inr w1"
      with Suc.prems(1,2) have b: "buffers w1 = buffers w" by (rule deliver_buffers)
      then have l: "sig_list w1 lst = ?l" by (simp add: buffers_def)
      from b Suc.prems(2) have i1: "idle w1" using idle_buffers by blast
      from True Suc.prems(4) have "Suc i \<le> count (sig_list w1 lst)" "count (sig_list w1 lst) - Suc i < n"
        by (simp_all add: l)
      from Suc.IH [OF Suc.prems(1) i1 this] show "signal_loop x n lst (Suc i) w1 =
          deliver_all x (map (signal ?l) [Suc i..<count ?l]) w1" by (simp add: l)
    qed
    with True show ?thesis by (simp add: signal_loop_step up del: signal_loop.simps)
  qed
qed

lemma fire_delayed_signals_drain:
  assumes "no_signal_arrives x" "active_list w \<le> 1"
    "0 < count (sig_list w (active_list w))" "count (sig_list w (active_list w)) < n"
  shows "fire_delayed_signals x (Suc n) w =
           deliver_all x (stored (sig_list w (active_list w))) (drain_start w)"
proof -
  let ?a = "active_list w"
  from assms(2) have a: "1 - active_list (switch_lists w) = ?a" by (simp add: switch_lists_def Let_def)
  from assms(2) have c: "sig_list (drain_start w) ?a = sig_list w ?a"
    and i: "idle (drain_start w)"
    using drain_start_slot [of w] by (simp_all add: idle_def)
  have "signal_loop x n ?a 0 (drain_start w) =
        deliver_all x (map (signal (sig_list (drain_start w) ?a))
          [0..<count (sig_list (drain_start w) ?a)]) (drain_start w)"
    using assms(1) i by (rule signal_loop_deliver_all_idle) (simp_all add: c assms)
  then have s: "signal_loop x n ?a 0 (drain_start w) =
        deliver_all x (stored (sig_list w ?a)) (drain_start w)"
    by (simp add: c stored_def)
  have f: "fire_delayed_signals x (Suc n) w =
      bnd (signal_loop x n ?a 0 (drain_start w)) (fire_delayed_signals x n)"
    using assms(3) unfolding fire_delayed_signals_Suc a by simp
  have "bnd (deliver_all x (stored (sig_list w ?a)) (drain_start w)) (fire_delayed_signals x n) =
        bnd (deliver_all x (stored (sig_list w ?a)) (drain_start w)) Inr"
  proof (rule bnd_cong_Inr)
    fix w3 assume "deliver_all x (stored (sig_list w ?a)) (drain_start w) = Inr w3"
    with assms(1) i have "buffers w3 = buffers (drain_start w)" by (rule deliver_all_buffers)
    with i have "idle w3" using idle_buffers by blast
    moreover from assms(3,4) have "0 < n" by simp
    ultimately show "fire_delayed_signals x n w3 = Inr w3"
      by (simp add: fire_delayed_signals_idle idle_def)
  qed
  moreover have "bnd m Inr = m" for m :: "world res" by (cases m) simp_all
  ultimately show ?thesis by (simp only: f s)
qed

lemmas scenario2_defs = tagged_ext_def any_signal_world_def queued_world_def deliver_def stored_def
  capture_all_def drain_start_def

lemmas scenario3_defs = named_ext_def late_signal_then_fire_def interrupted_ext_def h1_world_def
  signals_blocked_world_def

lemma no_signal_arrives_tagged: "no_signal_arrives tagged_ext"
  by (simp add: no_signal_arrives_def tagged_ext_def quiet_ext_def)

lemma no_signal_arrives_refiring: "no_signal_arrives refiring_ext"
proof -
  have "buffers v' = buffers v"
    if "idle v" "event_fire tagged_ext 3 (Some (generic_event ''F'')) v = Inr v'" for v v'
    using no_signal_arrives_tagged that(1) _ that(2)
    by (rule event_fire_buffers) (simp add: scenario_defs collaborator_defs)
  then show ?thesis
    by (auto simp: no_signal_arrives_def refiring_ext_def split: if_splits)
qed

lemma leaves_drained_slot_tagged: "leaves_drained_slot tagged_ext"
  by (simp add: leaves_drained_slot_def tagged_ext_def quiet_ext_def)

section \<open>Facts about a pass over quiet handlers\<close>

lemma deref_log_update [simp]: "deref (w\<lparr>log := l\<rparr>) = deref w"
  by (rule ext) (simp add: deref_def)








lemma event_match_arguments [simp]: "event_match x c (e\<lparr>arguments := a\<rparr>) = event_match x c e"
  by (cases "type c") (simp_all add: event_match_def)

lemma command_line_copy [simp]:
  "command_line x c (e\<lparr>arguments := Some (case arguments e of None \<Rightarrow> [] | Some a \<Rightarrow> a)\<rparr>) =
   command_line x c e"
  by (simp add: command_line_def split: option.splits)

lemma event_is_blocked_arguments [simp]:
  "event_is_blocked (e\<lparr>arguments := a\<rparr>) w = event_is_blocked e w"
  by (simp add: event_is_blocked_def)






lemma event_fire_None:
  "event_fire x n None w =
     bnd (event_fire_delayed x n (w\<lparr>is_event := is_event w + 1\<rparr>))
       (\<lambda>w1. Inr (w1\<lparr>is_event := is_event w1 - 1\<rparr>))"
  by (simp add: event_fire_def)


section \<open>C1: the decision order of matching\<close>

text \<open>
  C1. \<open>event_match\<close> decides in this order, for every pattern and occurrence: two
  non-empty, unequal handler names give false; otherwise an \<open>Any\<close> pattern gives true;
  otherwise different types give false; otherwise the rule of the type decides (signal
  and process exit: wildcard or equal number; variable and generic: equal name; job
  exit: equal job id).
\<close>

theorem event_match_decision_order:
  "event_match x pattern occurrence = matches x pattern occurrence"
  by (cases "type pattern")
     (simp_all add: event_match_def matches_def name_veto_def eq_commute)

theorem event_match_decision_order_witness:
  "event_match quiet_ext (handler ''f'' (signal_event (-1))) (signal_event 15) \<and>
   \<not> event_match quiet_ext (handler ''f'' (signal_event (-1))) (handler ''g'' (signal_event 15)) \<and>
   event_match quiet_ext (handler ''f'' (event_t_init EVENT_ANY)) (generic_event ''E'') \<and>
   \<not> event_match quiet_ext (signal_event 2) (generic_event ''E'') \<and>
   \<not> event_match quiet_ext ((event_t_init EVENT_JOB_ID)\<lparr>param1 := 0\<rparr>)
        ((event_t_init EVENT_JOB_ID)\<lparr>param1 := 3\<rparr>)"
  using event_match_decision_order [of quiet_ext "handler ''f'' (signal_event (-1))" "signal_event 15"]
    event_match_decision_order [of quiet_ext "handler ''f'' (signal_event (-1))"
      "handler ''g'' (signal_event 15)"]
    event_match_decision_order [of quiet_ext "handler ''f'' (event_t_init EVENT_ANY)"
      "generic_event ''E''"]
    event_match_decision_order [of quiet_ext "signal_event 2" "generic_event ''E''"]
    event_match_decision_order [of quiet_ext "(event_t_init EVENT_JOB_ID)\<lparr>param1 := 0\<rparr>"
      "(event_t_init EVENT_JOB_ID)\<lparr>param1 := 3\<rparr>"]
  by (simp add: matches_def name_veto_def collaborator_defs scenario_defs)

section \<open>C2: one dispatch pass\<close>

text \<open>
  C2. A handler that an earlier handler of the same pass unregistered is to be skipped.
  Here \<open>h1\<close> and \<open>h2\<close> both match \<open>E\<close>; the body of \<open>h1\<close> unregisters \<open>h2\<close> and then
  fires another event. The nested pass empties the kill-list and deletes the entry of
  \<open>h2\<close>, so at the turn of \<open>h2\<close> the outer pass no longer finds it on the kill-list and
  reads the deleted entry to run it.
\<close>

theorem event_fire_internal_nested_free_kills:
  "event_fire_internal (quiet_ext\<lparr>parser_eval := unregister_h2_then_fire\<rparr>)
     (generic_event ''E'') two_generic_handlers = Inl UseAfterFree"
  by (simp add: collaborator_defs event_defs scenario_defs Let_def)

text \<open>Without the nested fire the kill-list test works: \<open>h2\<close> is skipped.\<close>

lemma event_fire_internal_skips_killed:
  "case event_fire_internal (quiet_ext\<lparr>parser_eval := unregister_h2\<rparr>)
          (generic_event ''E'') two_generic_handlers of
     Inl e \<Rightarrow> False
   | Inr w \<Rightarrow> [a \<leftarrow> log w. a \<noteq> SignalBlock \<and> a \<noteq> SignalUnblock] = [Eval ''h1''] \<and>
       events w = [0] \<and> killme w = [] \<and> deref w 1 = None"
  by (simp add: collaborator_defs event_defs scenario_defs Let_def)

section \<open>C3: unregistering signal handlers\<close>

text \<open>
  C3. When the last handlers of a signal are unregistered, delivery of the signal is to
  be disabled once. Here the registry holds two handlers for signal 2 and the criterion
  removes both: afterwards no entry is left, and \<open>signal_handle 2 False\<close> was never
  called, because each removed entry still counted the other one.
\<close>

theorem event_remove_both_handlers_of_a_signal:
  "case event_remove quiet_ext (Some (handler ''f'' (event_t_init EVENT_ANY))) two_signal_handlers of
     Inl e \<Rightarrow> False
   | Inr w \<Rightarrow> events w = [] \<and> killme w = [0, 1] \<and> SignalHandle 2 False \<notin> set (log w)"
  by (simp add: collaborator_defs event_defs scenario_defs Let_def)

text \<open>With one handler for the signal, removing it disables delivery once.\<close>

lemma event_remove_last_handler_of_a_signal:
  "case event_remove quiet_ext (Some (handler ''f'' (event_t_init EVENT_ANY)))
          (event_add_handler (Some (handler ''f'' (signal_event 2))) empty_world) of
     Inl e \<Rightarrow> False
   | Inr w \<Rightarrow> events w = [] \<and> [a \<leftarrow> log w. a = SignalHandle 2 False] = [SignalHandle 2 False]"
  by (simp add: collaborator_defs event_defs scenario_defs Let_def)

section \<open>C4: capture and drain\<close>

text \<open>
  C4. After a sequence of captures a drain is to hand on exactly \<open>count\<close> signal
  occurrences, in capture order. Here the signals 2, 15 and 3 are captured, with no
  overflow, and the drain starts. While the handler of signal 2 runs, signal 10 arrives
  and the body fires another event. The nested drain switches the slots back and sets
  the count of the slot the outer loop is reading to zero, so the outer loop ends after
  its first round: the handlers ran for signal 2 and for signal 10 only. Signals 15 and
  3 are never handed on, they are not on the blocked queue, nothing is pending any
  more, and no diagnostic was written.
\<close>

theorem drain_cut_short_by_nested_drain:
  "stored (sig_list (capture_all [2, 15, 3] any_signal_world) 0) = [2, 15, 3] \<and>
   count (sig_list (capture_all [2, 15, 3] any_signal_world) 0) = 3 \<and>
   overflow (sig_list (capture_all [2, 15, 3] any_signal_world) 0) = 0 \<and>
   (case fire_delayed_signals interrupted_ext 5 (capture_all [2, 15, 3] any_signal_world) of
      Inl e \<Rightarrow> False
    | Inr w \<Rightarrow>
        log w = log any_signal_world @ [Eval ''on_signal INT'', Eval ''on_signal USR1''] \<and>
        count (sig_list w (active_list w)) = 0 \<and> blocked w = [] \<and>
        heap w = heap any_signal_world)"
  by (simp add: collaborator_defs event_defs scenario_defs scenario2_defs scenario3_defs Let_def
        event_fire_def event_fire_delayed_def eval_nat_numeral)

text \<open>
  With handlers that do nothing of the kind the same drain hands on all three, in capture
  order.
\<close>

lemma drain_of_three_signals:
  "case fire_delayed_signals named_ext 5 (capture_all [2, 15, 3] any_signal_world) of
     Inl e \<Rightarrow> False
   | Inr w \<Rightarrow>
       log w = log any_signal_world @
         [Eval ''on_signal INT'', Eval ''on_signal TERM'', Eval ''on_signal QUIT''] \<and>
       count (sig_list w (active_list w)) = 0"
  by (simp add: collaborator_defs event_defs scenario_defs scenario2_defs scenario3_defs Let_def
        eval_nat_numeral)

text \<open>
  What holds in general. A capture into a slot below 64 entries appends the number and
  increments the count; at 64 it only sets the overflow flag. After any sequence of
  captures the slot holds the first 64 numbers in order, and the flag is set exactly
  when more arrived. The drain that follows switches the slots and reports an overflow
  exactly when the flag is set. It hands exactly the stored numbers on in capture order
  when no signal arrives while the handlers run, whatever else they fire, and when
  handlers capture further signals but start no drain of their own; in the latter case
  it goes on with what they captured.
\<close>

lemma capture_then_drain:
  assumes "active_list w \<le> 1" and "count (sig_list w (active_list w)) \<le> 64"
  shows
    "(let l = sig_list w (active_list w);
          w1 = capture_all sigs w;
          l1 = sig_list w1 (active_list w)
      in
        (count l < 64 \<longrightarrow>
           sig_list (event_fire_signal s w) (active_list w) =
             l\<lparr>signal := (signal l)(count l := s), count := count l + 1\<rparr>) \<and>
        (count l = 64 \<longrightarrow>
           sig_list (event_fire_signal s w) (active_list w) = l\<lparr>overflow := 1\<rparr>) \<and>
        stored l1 = take 64 (stored l @ sigs) \<and>
        count l1 = min (count l + length sigs) 64 \<and>
        (overflow l1 \<noteq> 0 \<longleftrightarrow> overflow l \<noteq> 0 \<or> 64 < count l + length sigs) \<and>
        log (drain_start w1) =
          log w @ (if overflow l1 \<noteq> 0
                   then [Debug ''Signal list overflow. Signals have been ignored.''] else []) \<and>
        (no_signal_arrives x \<and> 0 < count l1 \<and> count l1 < n \<longrightarrow>
           fire_delayed_signals x (Suc n) w1 = deliver_all x (stored l1) (drain_start w1)) \<and>
        (leaves_drained_slot x \<and> 0 < count l1 \<and> count l1 < n \<longrightarrow>
           fire_delayed_signals x (Suc n) w1 =
             bnd (deliver_all x (stored l1) (drain_start w1)) (fire_delayed_signals x n) \<and>
           (\<forall>w3. deliver_all x (stored l1) (drain_start w1) = Inr w3 \<and>
                 count (sig_list w3 (active_list w3)) = 0 \<longrightarrow>
                 fire_delayed_signals x (Suc n) w1 = Inr w3)))"
proof -
  let ?l = "sig_list w (active_list w)"
  let ?w1 = "capture_all sigs w"
  let ?l1 = "sig_list ?w1 (active_list w)"
  have cap: "count ?l < 64 \<longrightarrow>
           sig_list (event_fire_signal s w) (active_list w) =
             ?l\<lparr>signal := (signal ?l)(count ?l := s), count := count ?l + 1\<rparr>"
    "count ?l = 64 \<longrightarrow> sig_list (event_fire_signal s w) (active_list w) = ?l\<lparr>overflow := 1\<rparr>"
    by (simp_all add: event_fire_signal_slot Let_def)
  from capture_all_slot [OF assms(2), of sigs]
  have seq: "stored ?l1 = take 64 (stored ?l @ sigs)" "count ?l1 = min (count ?l + length sigs) 64"
    "(overflow ?l1 \<noteq> 0) = (overflow ?l \<noteq> 0 \<or> 64 < count ?l + length sigs)"
    by (simp_all add: Let_def)
  have a1: "active_list ?w1 \<le> 1" "active_list ?w1 = active_list w" using assms(1) by simp_all
  obtain sl where "?w1 = w\<lparr>sig_list := sl\<rparr>" using capture_all_only_sig_list by blast
  then have lg: "log ?w1 = log w" by simp
  have l: "log (drain_start ?w1) =
             log w @ (if overflow ?l1 \<noteq> 0
                      then [Debug ''Signal list overflow. Signals have been ignored.''] else [])"
    using drain_start_log [OF a1(1)] by (simp add: lg)
  have whole: "fire_delayed_signals x (Suc n) ?w1 = deliver_all x (stored ?l1) (drain_start ?w1)"
    if h: "no_signal_arrives x" "0 < count ?l1" "count ?l1 < n"
    using h a1 fire_delayed_signals_drain [of x ?w1 n] by simp
  have drain: "fire_delayed_signals x (Suc n) ?w1 =
             bnd (deliver_all x (stored ?l1) (drain_start ?w1)) (fire_delayed_signals x n) \<and>
           (\<forall>w3. deliver_all x (stored ?l1) (drain_start ?w1) = Inr w3 \<and>
                 count (sig_list w3 (active_list w3)) = 0 \<longrightarrow>
                 fire_delayed_signals x (Suc n) ?w1 = Inr w3)"
    if h: "leaves_drained_slot x" "0 < count ?l1" "count ?l1 < n"
  proof -
    from h a1 have r: "fire_delayed_signals x (Suc n) ?w1 =
             bnd (deliver_all x (stored ?l1) (drain_start ?w1)) (fire_delayed_signals x n)"
      using fire_delayed_signals_round [of x ?w1 n] by simp
    from h have "0 < n" by simp
    then have "\<forall>w3. deliver_all x (stored ?l1) (drain_start ?w1) = Inr w3 \<and>
                 count (sig_list w3 (active_list w3)) = 0 \<longrightarrow>
                 fire_delayed_signals x (Suc n) ?w1 = Inr w3"
      unfolding r by (auto simp: fire_delayed_signals_idle)
    with r show ?thesis by blast
  qed
  from cap seq l whole drain show ?thesis unfolding Let_def by blast
qed

lemma capture_then_drain_example:
  "active_list any_signal_world \<le> 1 \<and>
   count (sig_list any_signal_world (active_list any_signal_world)) \<le> 64 \<and>
   leaves_drained_slot tagged_ext \<and>
   stored (sig_list (capture_all [2, 15] any_signal_world) 0) = [2, 15] \<and>
   (case fire_delayed_signals tagged_ext 4 (capture_all [2, 15] any_signal_world) of
      Inl e \<Rightarrow> False
    | Inr w \<Rightarrow> [a \<leftarrow> log w. a \<noteq> SignalBlock \<and> a \<noteq> SignalUnblock] =
        [SignalHandle (-1) True, Eval ''on_signal INT'', Eval ''on_signal TERM'']) \<and>
   count (sig_list (capture_all (replicate 65 2) any_signal_world) 0) = 64 \<and>
   overflow (sig_list (capture_all (replicate 65 2) any_signal_world) 0) \<noteq> 0 \<and>
   stored (sig_list (capture_all (replicate 65 2) any_signal_world) 0) = replicate 64 2 \<and>
   last (log (drain_start (capture_all (replicate 65 2) any_signal_world))) =
     Debug ''Signal list overflow. Signals have been ignored.'' \<and>
   active_list refire_world \<le> 1 \<and>
   count (sig_list refire_world (active_list refire_world)) \<le> 64 \<and>
   no_signal_arrives refiring_ext \<and>
   (case fire_delayed_signals refiring_ext 4 (capture_all [2, 15] refire_world) of
      Inl e \<Rightarrow> False
    | Inr w \<Rightarrow> [a \<leftarrow> log w. a \<noteq> SignalBlock \<and> a \<noteq> SignalUnblock] =
        [SignalHandle (-1) True, Eval ''on_signal INT'', Eval ''on_F'', Eval ''on_signal TERM''])"
proof -
  let ?W = any_signal_world
  let ?R = refire_world
  have a: "active_list ?W \<le> 1" and a0: "active_list ?W = 0"
    and c: "count (sig_list ?W (active_list ?W)) \<le> 64"
    and l0: "sig_list ?W 0 = empty_slot"
    by (simp_all add: collaborator_defs event_defs scenario_defs scenario2_defs Let_def)
  have ra: "active_list ?R \<le> 1" and ra0: "active_list ?R = 0"
    and rc: "count (sig_list ?R (active_list ?R)) \<le> 64"
    and rl0: "sig_list ?R 0 = empty_slot"
    by (simp_all add: refire_world_def collaborator_defs event_defs scenario_defs scenario2_defs
          Let_def)
  note t1 = capture_then_drain [OF a c, of "[2, 15]" 0 tagged_ext 3, unfolded Let_def a0 l0]
  note t2 = capture_then_drain [OF a c, of "replicate 65 2" 0 tagged_ext 65, unfolded Let_def a0 l0]
  note t3 = capture_then_drain [OF ra rc, of "[2, 15]" 0 refiring_ext 3, unfolded Let_def ra0 rl0]
  have e: "stored empty_slot = []" "count empty_slot = 0" "overflow empty_slot = 0"
    by (simp_all add: stored_def empty_slot_def)
  from t1 have s1: "stored (sig_list (capture_all [2, 15] ?W) 0) = [2, 15]"
    and c1: "count (sig_list (capture_all [2, 15] ?W) 0) = 2"
    by (simp_all add: e)
  from t1 have "leaves_drained_slot tagged_ext \<and>
      0 < count (sig_list (capture_all [2, 15] ?W) 0) \<and>
      count (sig_list (capture_all [2, 15] ?W) 0) < 3 \<longrightarrow>
      fire_delayed_signals tagged_ext (Suc 3) (capture_all [2, 15] ?W) =
        bnd (deliver_all tagged_ext (stored (sig_list (capture_all [2, 15] ?W) 0))
               (drain_start (capture_all [2, 15] ?W)))
          (fire_delayed_signals tagged_ext 3)"
    by blast
  with s1 c1 leaves_drained_slot_tagged
  have "fire_delayed_signals tagged_ext 4 (capture_all [2, 15] ?W) =
          bnd (deliver_all tagged_ext [2, 15] (drain_start (capture_all [2, 15] ?W)))
            (fire_delayed_signals tagged_ext 3)"
    by (simp add: numeral_eq_Suc del: fire_delayed_signals.simps)
  moreover have "case bnd (deliver_all tagged_ext [2, 15] (drain_start (capture_all [2, 15] ?W)))
            (fire_delayed_signals tagged_ext 3) of
      Inl e \<Rightarrow> False
    | Inr w \<Rightarrow> [a \<leftarrow> log w. a \<noteq> SignalBlock \<and> a \<noteq> SignalUnblock] =
        [SignalHandle (-1) True, Eval ''on_signal INT'', Eval ''on_signal TERM'']"
    by (simp add: collaborator_defs event_defs scenario_defs scenario2_defs Let_def
          fire_delayed_signals_idle)
  ultimately have d: "case fire_delayed_signals tagged_ext 4 (capture_all [2, 15] any_signal_world) of
      Inl e \<Rightarrow> False
    | Inr w \<Rightarrow> [a \<leftarrow> log w. a \<noteq> SignalBlock \<and> a \<noteq> SignalUnblock] =
        [SignalHandle (-1) True, Eval ''on_signal INT'', Eval ''on_signal TERM'']"
    by simp
  from t2 have o: "count (sig_list (capture_all (replicate 65 2) ?W) 0) = 64"
    "overflow (sig_list (capture_all (replicate 65 2) ?W) 0) \<noteq> 0"
    "stored (sig_list (capture_all (replicate 65 2) ?W) 0) = replicate 64 2"
    by (simp_all add: e)
  from t2 have "log (drain_start (capture_all (replicate 65 2) ?W)) =
          log ?W @ (if overflow (sig_list (capture_all (replicate 65 2) ?W) 0) \<noteq> 0
                   then [Debug ''Signal list overflow. Signals have been ignored.''] else [])"
    by blast
  with o(2) have "last (log (drain_start (capture_all (replicate 65 2) ?W))) =
     Debug ''Signal list overflow. Signals have been ignored.''" by simp
  note ov = this
  from t3 have s3: "stored (sig_list (capture_all [2, 15] ?R) 0) = [2, 15]"
    and c3: "count (sig_list (capture_all [2, 15] ?R) 0) = 2"
    by (simp_all add: e)
  from t3 have "no_signal_arrives refiring_ext \<and>
      0 < count (sig_list (capture_all [2, 15] ?R) 0) \<and>
      count (sig_list (capture_all [2, 15] ?R) 0) < 3 \<longrightarrow>
      fire_delayed_signals refiring_ext (Suc 3) (capture_all [2, 15] ?R) =
        deliver_all refiring_ext (stored (sig_list (capture_all [2, 15] ?R) 0))
          (drain_start (capture_all [2, 15] ?R))"
    by blast
  with s3 c3 no_signal_arrives_refiring
  have "fire_delayed_signals refiring_ext 4 (capture_all [2, 15] ?R) =
          deliver_all refiring_ext [2, 15] (drain_start (capture_all [2, 15] ?R))"
    by (simp add: numeral_eq_Suc del: fire_delayed_signals.simps)
  moreover have "case deliver_all refiring_ext [2, 15] (drain_start (capture_all [2, 15] ?R)) of
      Inl e \<Rightarrow> False
    | Inr w \<Rightarrow> [a \<leftarrow> log w. a \<noteq> SignalBlock \<and> a \<noteq> SignalUnblock] =
        [SignalHandle (-1) True, Eval ''on_signal INT'', Eval ''on_F'', Eval ''on_signal TERM'']"
    by (simp add: collaborator_defs event_defs scenario_defs scenario2_defs Let_def
          refiring_ext_def refire_world_def event_fire_def event_fire_delayed_def eval_nat_numeral)
  ultimately have r: "case fire_delayed_signals refiring_ext 4 (capture_all [2, 15] ?R) of
      Inl e \<Rightarrow> False
    | Inr w \<Rightarrow> [a \<leftarrow> log w. a \<noteq> SignalBlock \<and> a \<noteq> SignalUnblock] =
        [SignalHandle (-1) True, Eval ''on_signal INT'', Eval ''on_F'', Eval ''on_signal TERM'']"
    by simp
  from a c leaves_drained_slot_tagged s1 d o ov ra rc no_signal_arrives_refiring r
  show ?thesis by simp
qed

section \<open>C5: the blocked round trip\<close>



section \<open>C6: signals are captured, and drained before anything else is fired\<close>

text \<open>
  C6. \<open>event_fire\<close> is to hand every captured signal on, to dispatch or to the blocked
  queue, before it handles a new occurrence that is not a signal. Here the signals 2, 15
  and 3 are pending when the generic event \<open>E\<close> is fired. While the handler of signal 2
  runs, signal 10 arrives and the body fires another event; the nested drain empties the
  slot the outer drain is reading. When \<open>h1\<close>, the handler of \<open>E\<close>, is run, signals 15
  and 3 have not been dispatched, no copy of them was made for the blocked queue, and
  they are not pending any more.
\<close>

theorem event_fire_dispatches_with_signals_undelivered:
  "case event_fire interrupted_ext 5 (Some (generic_event ''E''))
          (capture_all [2, 15, 3] h1_world) of
     Inl e \<Rightarrow> False
   | Inr w \<Rightarrow>
       log w = log h1_world @ [Eval ''on_signal INT'', Eval ''on_signal USR1'', Eval ''h1''] \<and>
       count (sig_list w (active_list w)) = 0 \<and> blocked w = [] \<and> heap w = heap h1_world"
  by (simp add: collaborator_defs event_defs scenario_defs scenario2_defs scenario3_defs Let_def
        event_fire_def event_fire_delayed_def eval_nat_numeral)

text \<open>
  With handlers that do nothing of the kind every pending signal is dispatched, in
  capture order, before \<open>h1\<close> is run.
\<close>

lemma event_fire_dispatches_pending_signals_first:
  "case event_fire named_ext 5 (Some (generic_event ''E'')) (capture_all [2, 15, 3] h1_world) of
     Inl e \<Rightarrow> False
   | Inr w \<Rightarrow>
       log w = log h1_world @
         [Eval ''on_signal INT'', Eval ''on_signal TERM'', Eval ''on_signal QUIT'', Eval ''h1'']"
  by (simp add: collaborator_defs event_defs scenario_defs scenario2_defs scenario3_defs Let_def
        event_fire_def event_fire_delayed_def eval_nat_numeral)

text \<open>
  While signal events are blocked every pending signal is put on the blocked queue
  instead, in capture order and with its name as the argument, before \<open>h1\<close> is run.
\<close>

lemma event_fire_queues_pending_signals_first:
  "case event_fire named_ext 5 (Some (generic_event ''E''))
          (capture_all [2, 15, 3] signals_blocked_world) of
     Inl e \<Rightarrow> False
   | Inr w \<Rightarrow>
       log w = log h1_world @ [Eval ''h1''] \<and> blocked w = [2, 3, 4] \<and>
       map (deref w) (blocked w) =
         [Some ((signal_event 2)\<lparr>arguments := Some [''INT'']\<rparr>),
          Some ((signal_event 15)\<lparr>arguments := Some [''TERM'']\<rparr>),
          Some ((signal_event 3)\<lparr>arguments := Some [''QUIT'']\<rparr>)]"
  by (simp add: collaborator_defs event_defs scenario_defs scenario2_defs scenario3_defs Let_def
        event_fire_def event_fire_delayed_def eval_nat_numeral)

text \<open>
  What holds in general. \<open>event_fire\<close> only captures a signal occurrence: nothing is
  evaluated, queued or dispatched in that call. For any other occurrence it first runs
  the delayed processing; when that returns no captured signal is pending any more, and
  only then the occurrence is queued (if blocked) or dispatched. With captured signals
  pending, no blocked occurrence waiting and no signal arriving while handlers run, the
  call hands each stored signal on, in capture order, to the blocked queue or to
  dispatch, and after the last of them the new occurrence.
\<close>

lemma event_fire_signals_first:
  "(type e = EVENT_SIGNAL \<longrightarrow>
      event_fire x n (Some e) w = Inr (event_fire_signal (param1 e) w) \<and>
      log (event_fire_signal (param1 e) w) = log w \<and>
      blocked (event_fire_signal (param1 e) w) = blocked w \<and>
      last_status (event_fire_signal (param1 e) w) = last_status w) \<and>
   (type e \<noteq> EVENT_SIGNAL \<longrightarrow>
      event_fire x n (Some e) w =
        bnd (event_fire_delayed x n (w\<lparr>is_event := is_event w + 1\<rparr>))
          (\<lambda>w1. bnd (deliver x e w1) (\<lambda>w3. Inr (w3\<lparr>is_event := is_event w3 - 1\<rparr>)))) \<and>
   (\<forall>w1. event_fire_delayed x n (w\<lparr>is_event := is_event w + 1\<rparr>) = Inr w1 \<longrightarrow>
      count (sig_list w1 (active_list w1)) = 0) \<and>
   (no_signal_arrives x \<and> type e \<noteq> EVENT_SIGNAL \<and> blocked w = [] \<and> active_list w \<le> 1 \<and>
      0 < count (sig_list w (active_list w)) \<and> count (sig_list w (active_list w)) < m \<longrightarrow>
      event_fire x (Suc m) (Some e) w =
        bnd (deliver_all x (stored (sig_list w (active_list w)))
               (drain_start (w\<lparr>is_event := is_event w + 1\<rparr>)))
          (\<lambda>w1. bnd (deliver x e w1) (\<lambda>w3. Inr (w3\<lparr>is_event := is_event w3 - 1\<rparr>))))"
proof -
  let ?w0 = "w\<lparr>is_event := is_event w + 1\<rparr>"
  have "event_fire x (Suc m) (Some e) w =
        bnd (deliver_all x (stored (sig_list w (active_list w))) (drain_start ?w0))
          (\<lambda>w1. bnd (deliver x e w1) (\<lambda>w3. Inr (w3\<lparr>is_event := is_event w3 - 1\<rparr>)))"
    if h: "no_signal_arrives x" "type e \<noteq> EVENT_SIGNAL" "blocked w = []" "active_list w \<le> 1"
      "0 < count (sig_list w (active_list w))" "count (sig_list w (active_list w)) < m"
  proof -
    from h(3) have "fire_delayed_blocked x (Suc m) ?w0 = Inr ?w0"
      by (simp add: fire_delayed_blocked_def)
    then have "event_fire_delayed x (Suc m) ?w0 = fire_delayed_signals x (Suc m) ?w0"
      by (simp add: event_fire_delayed_def del: fire_delayed_signals.simps)
    also have "\<dots> = deliver_all x (stored (sig_list ?w0 (active_list ?w0))) (drain_start ?w0)"
      using h(1) by (rule fire_delayed_signals_drain) (use h in simp_all)
    finally show ?thesis using h(2) by (simp add: event_fire_Some del: fire_delayed_signals.simps)
  qed
  then show ?thesis
    by (auto simp: event_fire_Some event_fire_signal_def Let_def dest: event_fire_delayed_done
          simp del: fire_delayed_signals.simps)
qed

lemma event_fire_signals_first_example:
  "type (signal_event 2) = EVENT_SIGNAL \<and> type (generic_event ''E'') \<noteq> EVENT_SIGNAL \<and>
   event_fire tagged_ext 1 (Some (signal_event 2)) any_signal_world =
     Inr (event_fire_signal 2 any_signal_world) \<and>
   log (event_fire_signal 2 any_signal_world) = log any_signal_world \<and>
   no_signal_arrives tagged_ext \<and>
   event_fire tagged_ext 4 (Some (generic_event ''E''))
       (capture_all [2, 15]
          (event_add_handler (Some (handler ''h1'' (generic_event ''E''))) any_signal_world)) =
     bnd (deliver_all tagged_ext [2, 15]
            (drain_start
               ((capture_all [2, 15]
                   (event_add_handler (Some (handler ''h1'' (generic_event ''E''))) any_signal_world))
                \<lparr>is_event := 1\<rparr>)))
       (\<lambda>w1. bnd (deliver tagged_ext (generic_event ''E'') w1)
               (\<lambda>w3. Inr (w3\<lparr>is_event := is_event w3 - 1\<rparr>))) \<and>
   (case event_fire tagged_ext 4 (Some (generic_event ''E''))
           (capture_all [2, 15]
              (event_add_handler (Some (handler ''h1'' (generic_event ''E''))) any_signal_world)) of
      Inl e \<Rightarrow> False
    | Inr w \<Rightarrow> count (sig_list w (active_list w)) = 0 \<and>
        [a \<leftarrow> log w. a \<noteq> SignalBlock \<and> a \<noteq> SignalUnblock] =
          [SignalHandle (-1) True, Eval ''on_signal INT'', Eval ''on_signal TERM'', Eval ''h1''])"
proof -
  let ?W = "capture_all [2, 15]
              (event_add_handler (Some (handler ''h1'' (generic_event ''E''))) any_signal_world)"
  note t1 = event_fire_signals_first [of "signal_event 2" tagged_ext 1 any_signal_world]
  note t2 = event_fire_signals_first [of "generic_event ''E''" tagged_ext 4 ?W 3]
  have ty: "type (signal_event 2) = EVENT_SIGNAL" "type (generic_event ''E'') \<noteq> EVENT_SIGNAL"
    and p: "param1 (signal_event 2) = 2"
    by (simp_all add: collaborator_defs scenario_defs)
  have v: "active_list ?W \<le> 1" "active_list ?W = 0" "blocked ?W = []" "is_event ?W = 0"
    "stored (sig_list ?W 0) = [2, 15]" "count (sig_list ?W 0) = 2"
    by (simp_all add: collaborator_defs event_defs scenario_defs scenario2_defs Let_def)
  from t1 ty have 1: "event_fire tagged_ext 1 (Some (signal_event 2)) any_signal_world =
     Inr (event_fire_signal 2 any_signal_world)"
    "log (event_fire_signal 2 any_signal_world) = log any_signal_world"
    unfolding p by blast+
  from t2 have "no_signal_arrives tagged_ext \<and> type (generic_event ''E'') \<noteq> EVENT_SIGNAL \<and>
      blocked ?W = [] \<and> active_list ?W \<le> 1 \<and>
      0 < count (sig_list ?W (active_list ?W)) \<and> count (sig_list ?W (active_list ?W)) < 3 \<longrightarrow>
      event_fire tagged_ext (Suc 3) (Some (generic_event ''E'')) ?W =
        bnd (deliver_all tagged_ext (stored (sig_list ?W (active_list ?W)))
               (drain_start (?W\<lparr>is_event := is_event ?W + 1\<rparr>)))
          (\<lambda>w1. bnd (deliver tagged_ext (generic_event ''E'') w1)
                  (\<lambda>w3. Inr (w3\<lparr>is_event := is_event w3 - 1\<rparr>)))"
    by blast
  with no_signal_arrives_tagged ty(2) v
  have 2: "event_fire tagged_ext 4 (Some (generic_event ''E'')) ?W =
     bnd (deliver_all tagged_ext [2, 15] (drain_start (?W\<lparr>is_event := 1\<rparr>)))
       (\<lambda>w1. bnd (deliver tagged_ext (generic_event ''E'') w1)
               (\<lambda>w3. Inr (w3\<lparr>is_event := is_event w3 - 1\<rparr>)))"
    by (simp add: numeral_eq_Suc del: fire_delayed_signals.simps)
  have "case bnd (deliver_all tagged_ext [2, 15] (drain_start (?W\<lparr>is_event := 1\<rparr>)))
       (\<lambda>w1. bnd (deliver tagged_ext (generic_event ''E'') w1)
               (\<lambda>w3. Inr (w3\<lparr>is_event := is_event w3 - 1\<rparr>))) of
      Inl e \<Rightarrow> False
    | Inr w \<Rightarrow> count (sig_list w (active_list w)) = 0 \<and>
        [a \<leftarrow> log w. a \<noteq> SignalBlock \<and> a \<noteq> SignalUnblock] =
          [SignalHandle (-1) True, Eval ''on_signal INT'', Eval ''on_signal TERM'', Eval ''h1'']"
    by (simp add: collaborator_defs event_defs scenario_defs scenario2_defs Let_def)
  then have 3: "case event_fire tagged_ext 4 (Some (generic_event ''E'')) ?W of
      Inl e \<Rightarrow> False
    | Inr w \<Rightarrow> count (sig_list w (active_list w)) = 0 \<and>
        [a \<leftarrow> log w. a \<noteq> SignalBlock \<and> a \<noteq> SignalUnblock] =
          [SignalHandle (-1) True, Eval ''on_signal INT'', Eval ''on_signal TERM'', Eval ''h1'']"
    by (simp only: 2)
  from ty 1 no_signal_arrives_tagged 2 3 show ?thesis by (simp only: simp_thms)
qed

section \<open>C7: the blocked queue is retried at depth one only\<close>



section \<open>C8: exit status and interactive flag around a handler\<close>

text \<open>
  C8. After a handler invocation of \<open>event_fire_internal\<close> the last exit status is the one
  from before the invocation, whatever the handler body did, and so is the interactive
  flag, provided the evaluator pops what it pushed. A body that fires further
  occurrences is such an evaluator again (\<open>event_fire_view\<close>), as the witness shows on
  a body that sets the status and fires a second event.
\<close>

theorem fire_handler_restores_caller_state:
  "fire_handler x event p w = Inr w' \<Longrightarrow>
     last_status w' = last_status w \<and>
     (keeps_interactive_stack x \<longrightarrow>
        is_interactive w' = is_interactive w \<and> interactive_stack w' = interactive_stack w)"
proof -
  assume a: "fire_handler x event p w = Inr w'"
  then have "last_status w' = last_status w"
    by (rule fire_handler_Inr) simp
  moreover have "keeps_interactive_stack x \<longrightarrow>
        is_interactive w' = is_interactive w \<and> interactive_stack w' = interactive_stack w"
    using fire_handler_view [OF _ a] by (simp add: caller_view_def)
  ultimately show ?thesis by simp
qed

theorem fire_handler_restores_caller_state_witness:
  "keeps_interactive_stack nested_fire_ext \<and>
   (case fire_handler nested_fire_ext (generic_event ''E'') 0 nested_world of
      Inl e \<Rightarrow> False
    | Inr w \<Rightarrow> last_status w = 5 \<and> is_interactive w = 1 \<and> interactive_stack w = [] \<and>
        [a \<leftarrow> log w. a \<noteq> SignalBlock \<and> a \<noteq> SignalUnblock] = [Eval ''h1'', Eval ''h3''])"
proof -
  have "keeps_interactive_stack status_ext"
    by (auto simp: keeps_interactive_stack_def status_ext_def quiet_ext_def)
  then have k: "keeps_interactive_stack nested_fire_ext"
    unfolding keeps_interactive_stack_def [of nested_fire_ext]
    by (auto simp: nested_fire_ext_def quiet_ext_def caller_view_def dest!: event_fire_view)
  obtain w where f: "fire_handler nested_fire_ext (generic_event ''E'') 0 nested_world = Inr w"
    and l: "[a \<leftarrow> log w. a \<noteq> SignalBlock \<and> a \<noteq> SignalUnblock] = [Eval ''h1'', Eval ''h3'']"
    by (simp add: collaborator_defs event_defs scenario_defs Let_def)
  from fire_handler_restores_caller_state [OF f] k
  have "last_status w = last_status nested_world \<and> is_interactive w = is_interactive nested_world
     \<and> interactive_stack w = interactive_stack nested_world" by simp
  then have "last_status w = 5 \<and> is_interactive w = 1 \<and> interactive_stack w = []"
    by (simp add: collaborator_defs event_defs scenario_defs Let_def)
  with k f l show ?thesis by simp
qed

section \<open>C9: null descriptors\<close>

text \<open>
  C9, as stated, fails for \<open>event_fire\<close>: with a null descriptor it still runs the
  delayed processing. Here signal 2 is captured and has a handler: \<open>event_fire\<close> with
  no descriptor evaluates the handler and switches the capture slots.
\<close>

theorem event_fire_null_runs_delayed_events:
  "case event_fire tagged_ext 3 None pending_signal_world of
     Inl e \<Rightarrow> False
   | Inr w \<Rightarrow> log w = log pending_signal_world @ [Eval ''on_signal INT''] \<and>
       active_list pending_signal_world = 0 \<and> active_list w = 1"
  by (simp add: pending_signal_world_def collaborator_defs event_defs scenario_defs scenario2_defs
        Let_def eval_nat_numeral)

text \<open>
  C9, amended. With a null descriptor \<open>event_add_handler\<close> and \<open>event_remove\<close> only
  report the violation, and \<open>event_get\<close> returns 0 (reporting it unless the registry
  is empty): registry, kill-list, blocked queue and capture slots stay as they are.
  \<open>event_fire\<close> with a null descriptor fires no occurrence of its own but is exactly
  the delayed processing, one nesting level down; it changes nothing when the blocked
  queue is empty and no captured signal is pending.
\<close>

theorem null_descriptor_operations:
  "event_add_handler None w = CHECK_failed w \<and>
   event_remove x None w = Inr (CHECK_failed w) \<and>
   event_get x None out w = Inr ((0, out), if events w = [] then w else CHECK_failed w) \<and>
   CHECK_failed w = w\<lparr>log := log w @ [CheckFailed]\<rparr> \<and>
   event_fire x n None w =
     bnd (event_fire_delayed x n (w\<lparr>is_event := is_event w + 1\<rparr>))
       (\<lambda>w1. Inr (w1\<lparr>is_event := is_event w1 - 1\<rparr>)) \<and>
   (blocked w = [] \<and> count (sig_list w (active_list w)) = 0 \<and> 0 < n \<longrightarrow>
      event_fire x n None w = Inr w)"
proof -
  have "event_fire x n None w = Inr w"
    if "blocked w = []" "count (sig_list w (active_list w)) = 0" "0 < n"
  proof -
    let ?w1 = "w\<lparr>is_event := is_event w + 1\<rparr>"
    from that have "event_fire_delayed x n ?w1 = Inr ?w1"
      by (simp add: event_fire_delayed_def fire_delayed_blocked_def fire_delayed_signals_idle)
    then show ?thesis by (simp add: event_fire_def)
  qed
  then show ?thesis
    by (simp add: event_add_handler_def event_remove_def event_get_def event_fire_def
          CHECK_failed_def emit_def)
qed

theorem null_descriptor_operations_witness:
  "blocked any_signal_world = [] \<and>
   count (sig_list any_signal_world (active_list any_signal_world)) = 0 \<and>
   event_fire tagged_ext 3 None any_signal_world = Inr any_signal_world \<and>
   events (CHECK_failed any_signal_world) = events any_signal_world \<and>
   event_remove tagged_ext None any_signal_world = Inr (CHECK_failed any_signal_world)"
proof -
  have h: "blocked any_signal_world = []"
    "count (sig_list any_signal_world (active_list any_signal_world)) = 0" "(0::nat) < 3"
    by (simp_all add: collaborator_defs event_defs scenario_defs scenario2_defs Let_def)
  from null_descriptor_operations [of any_signal_world tagged_ext None 3] h
  have "event_fire tagged_ext 3 None any_signal_world = Inr any_signal_world"
    "event_remove tagged_ext None any_signal_world = Inr (CHECK_failed any_signal_world)"
    "CHECK_failed any_signal_world = any_signal_world\<lparr>log := log any_signal_world @ [CheckFailed]\<rparr>"
    by blast+
  with h show ?thesis by simp
qed

section \<open>C10: only the signal number survives\<close>

text \<open>
  C10. Of a signal occurrence passed to \<open>event_fire\<close> only the signal number is
  recorded: the call is the same as for a bare signal occurrence of that number,
  whatever name and arguments it carries. The occurrence the drain later hands on for a
  recorded number has an empty handler name and exactly one argument, the symbolic name
  of the signal.
\<close>

theorem signal_occurrence_only_number:
  assumes "type e = EVENT_SIGNAL"
  shows
    "event_fire x n (Some e) w = event_fire x' n' (Some (signal_event (param1 e))) w \<and>
     event_fire x n (Some e) w = Inr (event_fire_signal (param1 e) w) \<and>
     (count (sig_list w (active_list w)) < 64 \<longrightarrow>
        signal (sig_list (event_fire_signal (param1 e) w) (active_list w))
          (count (sig_list w (active_list w))) = param1 e) \<and>
     (\<forall>v lst i m. i < count (sig_list v lst) \<longrightarrow>
        signal_loop x (Suc m) lst i v =
          bnd (deliver x (drained_event x (signal (sig_list v lst) i)) v)
            (signal_loop x m lst (Suc i))) \<and>
     (active_list w \<le> 1 \<and> count (sig_list w (active_list w)) = 0 \<longrightarrow>
        fire_delayed_signals x (Suc (Suc m)) (event_fire_signal (param1 e) w) =
          bnd (deliver x (drained_event x (param1 e)) (drain_start (event_fire_signal (param1 e) w)))
            (\<lambda>v. bnd (signal_loop x m (active_list w) 1 v) (fire_delayed_signals x (Suc m)))) \<and>
     type (drained_event x (param1 e)) = EVENT_SIGNAL \<and>
     param1 (drained_event x (param1 e)) = param1 e \<and>
     function_name (drained_event x (param1 e)) = [] \<and>
     arguments (drained_event x (param1 e)) = Some [sig2wcs x (param1 e)]"
proof -
  let ?s = "param1 e"
  let ?w1 = "event_fire_signal ?s w"
  have t: "type (signal_event ?s) = EVENT_SIGNAL" "param1 (signal_event ?s) = ?s"
    by (simp_all add: signal_event_def event_t_init_def)
  from assms t have 1: "event_fire x n (Some e) w = event_fire x' n' (Some (signal_event ?s)) w"
    and 2: "event_fire x n (Some e) w = Inr ?w1"
    by (simp_all add: event_fire_Some)
  have 3: "count (sig_list w (active_list w)) < 64 \<longrightarrow>
        signal (sig_list ?w1 (active_list w)) (count (sig_list w (active_list w))) = ?s"
    by (simp add: event_fire_signal_slot Let_def)
  have 4: "\<forall>v lst i m. i < count (sig_list v lst) \<longrightarrow>
        signal_loop x (Suc m) lst i v =
          bnd (deliver x (drained_event x (signal (sig_list v lst) i)) v)
            (signal_loop x m lst (Suc i))"
    using signal_loop_step by blast
  have 5: "fire_delayed_signals x (Suc (Suc m)) ?w1 =
          bnd (deliver x (drained_event x ?s) (drain_start ?w1))
            (\<lambda>v. bnd (signal_loop x m (active_list w) 1 v) (fire_delayed_signals x (Suc m)))"
    if h: "active_list w \<le> 1" "count (sig_list w (active_list w)) = 0"
  proof -
    from h have l1: "sig_list ?w1 (active_list w) =
        (sig_list w (active_list w))\<lparr>signal := (signal (sig_list w (active_list w)))(0 := ?s), count := 1\<rparr>"
      by (simp add: event_fire_signal_slot Let_def)
    from h(1) have a: "1 - active_list (switch_lists ?w1) = active_list w"
      by (simp add: switch_lists_def Let_def)
    from h(1) have c: "sig_list (drain_start ?w1) (active_list w) = sig_list ?w1 (active_list w)"
      using drain_start_slot [of ?w1] by simp
    have "fire_delayed_signals x (Suc (Suc m)) ?w1 =
      bnd (signal_loop x (Suc m) (active_list w) 0 (drain_start ?w1)) (fire_delayed_signals x (Suc m))"
      unfolding fire_delayed_signals_Suc a by (simp add: l1 del: fire_delayed_signals.simps signal_loop.simps)
    also have "signal_loop x (Suc m) (active_list w) 0 (drain_start ?w1) =
       bnd (deliver x (drained_event x ?s) (drain_start ?w1)) (signal_loop x m (active_list w) 1)"
      using signal_loop_step [of 0 "drain_start ?w1" "active_list w" x m]
      by (simp add: c l1 del: fire_delayed_signals.simps signal_loop.simps)
    finally show ?thesis by (simp add: bnd_assoc del: fire_delayed_signals.simps signal_loop.simps)
  qed
  have 6: "type (drained_event x ?s) = EVENT_SIGNAL" "param1 (drained_event x ?s) = ?s"
    "function_name (drained_event x ?s) = []" "arguments (drained_event x ?s) = Some [sig2wcs x ?s]"
    by (simp_all add: drained_event_def signal_event_def event_t_init_def)
  from 1 2 3 4 5 6 show ?thesis by blast
qed

theorem signal_occurrence_only_number_witness:
  "type signal_with_baggage = EVENT_SIGNAL \<and>
   event_fire tagged_ext 1 (Some signal_with_baggage) any_signal_world =
     event_fire quiet_ext 7 (Some (signal_event 15)) any_signal_world \<and>
   function_name (drained_event tagged_ext 15) = [] \<and>
   arguments (drained_event tagged_ext 15) = Some [''TERM''] \<and>
   (case fire_delayed_signals tagged_ext (Suc (Suc 1)) (event_fire_signal 15 any_signal_world) of
      Inl e \<Rightarrow> False
    | Inr w \<Rightarrow> [a \<leftarrow> log w. a \<noteq> SignalBlock \<and> a \<noteq> SignalUnblock] =
          [SignalHandle (-1) True, Eval ''on_signal TERM''])"
proof -
  let ?W = any_signal_world
  have t: "type signal_with_baggage = EVENT_SIGNAL" and p: "param1 signal_with_baggage = 15"
    by (simp_all add: signal_with_baggage_def collaborator_defs scenario_defs)
  have f: "active_list ?W \<le> 1 \<and> count (sig_list ?W (active_list ?W)) = 0"
    and a0: "active_list ?W = 0"
    by (simp_all add: collaborator_defs event_defs scenario_defs scenario2_defs Let_def)
  note inst = signal_occurrence_only_number [OF t, of tagged_ext 1 ?W quiet_ext 7 1, unfolded p]
  from inst f have d: "fire_delayed_signals tagged_ext (Suc (Suc 1)) (event_fire_signal 15 ?W) =
          bnd (deliver tagged_ext (drained_event tagged_ext 15) (drain_start (event_fire_signal 15 ?W)))
            (\<lambda>v. bnd (signal_loop tagged_ext 1 (active_list ?W) 1 v)
                   (fire_delayed_signals tagged_ext (Suc 1)))"
    by blast
  have "case bnd (deliver tagged_ext (drained_event tagged_ext 15) (drain_start (event_fire_signal 15 ?W)))
            (\<lambda>v. bnd (signal_loop tagged_ext 1 (active_list ?W) 1 v)
                   (fire_delayed_signals tagged_ext (Suc 1))) of
      Inl e \<Rightarrow> False
    | Inr w \<Rightarrow> [a \<leftarrow> log w. a \<noteq> SignalBlock \<and> a \<noteq> SignalUnblock] =
          [SignalHandle (-1) True, Eval ''on_signal TERM'']"
    by (simp add: collaborator_defs event_defs scenario_defs scenario2_defs Let_def)
  with d have e: "case fire_delayed_signals tagged_ext (Suc (Suc 1)) (event_fire_signal 15 ?W) of
      Inl e \<Rightarrow> False
    | Inr w \<Rightarrow> [a \<leftarrow> log w. a \<noteq> SignalBlock \<and> a \<noteq> SignalUnblock] =
          [SignalHandle (-1) True, Eval ''on_signal TERM'']"
    by simp
  from inst have "event_fire tagged_ext 1 (Some signal_with_baggage) ?W =
     event_fire quiet_ext 7 (Some (signal_event 15)) ?W"
    "function_name (drained_event tagged_ext 15) = []"
    "arguments (drained_event tagged_ext 15) = Some [sig2wcs tagged_ext 15]"
    by blast+
  with t e show ?thesis by (simp add: tagged_ext_def)
qed

end
